theory Spec2Isabelle
  imports Main
begin

section \<open>Data model of gochunker.go\<close>

text \<open>
  A websocket frame is the byte string handed over by \<open>ReadMessage\<close> or given to
  \<open>WriteMessage\<close>. A connection handle is a number; \<open>None\<close> stands for the nil
  pointer.
\<close>

type_synonym frame = string
type_synonym conn = nat

text \<open>\<open>type Event struct { ID string; Payload string }\<close>\<close>

record Event =
  ID :: string
  Payload :: string

text \<open>The zero value that \<open>var event Event\<close> declares.\<close>

definition zero_Event :: Event where
  "zero_Event = \<lparr>ID = [], Payload = []\<rparr>"

text \<open>
  \<open>encoding/json\<close> is not part of the repository, so both of its functions that the
  code calls are parameters of the model. \<open>json.Unmarshal(msg, &event)\<close> updates the
  event it is given and returns an error (\<open>None\<close>) or not; \<open>json.Marshal(event)\<close>
  returns the bytes (its error result is discarded by the code).
\<close>

type_synonym unmarshal = "frame \<Rightarrow> Event \<Rightarrow> Event option"
type_synonym marshal = "Event \<Rightarrow> frame"

section \<open>RateLimiter\<close>

text \<open>
  \<open>tokens\<close> and \<open>maxAllowed\<close> are Go \<open>int\<close>s. The only arithmetic on them is the
  decrement in \<open>Allow\<close>, guarded by \<open>tokens > 0\<close>, so nothing wraps around and
  they are modelled as \<open>int\<close>. The mutex makes each of \<open>Allow\<close> and one iteration of
  \<open>refill\<close> atomic. The ticker is the source of the ticks; a duration is a number of
  nanoseconds.
\<close>

record RateLimiter =
  tokens :: int
  maxAllowed :: int

text \<open>
  \<open>NewRateLimiter(max, interval)\<close>. \<open>time.NewTicker\<close> panics on an interval that is
  not positive, in which case no limiter is built (\<open>None\<close>).
\<close>

definition NewRateLimiter :: "int \<Rightarrow> int \<Rightarrow> RateLimiter option" where
  "NewRateLimiter mx interval =
     (if interval \<le> 0 then None else Some \<lparr>tokens = mx, maxAllowed = mx\<rparr>)"

text \<open>One iteration of the loop of \<open>refill\<close>: the ticker has fired.\<close>

definition refill :: "RateLimiter \<Rightarrow> RateLimiter" where
  "refill rl = rl\<lparr>tokens := maxAllowed rl\<rparr>"

text \<open>\<open>Allow\<close> returns its verdict and the limiter as it leaves it.\<close>

definition Allow :: "RateLimiter \<Rightarrow> bool \<times> RateLimiter" where
  "Allow rl = (if tokens rl > 0 then (True, rl\<lparr>tokens := tokens rl - 1\<rparr>) else (False, rl))"

text \<open>
  A history of the limiter: calls of \<open>Allow\<close> and ticks, in the order in which they
  take the mutex. \<open>rl_calls\<close> gives the verdicts of the \<open>Allow\<close> calls in order and
  the final limiter.
\<close>

datatype rl_call = CallAllow | RefillTick

fun rl_calls :: "rl_call list \<Rightarrow> RateLimiter \<Rightarrow> bool list \<times> RateLimiter" where
  "rl_calls [] rl = ([], rl)"
| "rl_calls (CallAllow # cs) rl =
     (case Allow rl of (g, rl') \<Rightarrow>
        (case rl_calls cs rl' of (gs, rl'') \<Rightarrow> (g # gs, rl'')))"
| "rl_calls (RefillTick # cs) rl = rl_calls cs (refill rl)"

text \<open>The number of permits granted among a list of verdicts.\<close>

definition grants :: "bool list \<Rightarrow> nat" where
  "grants gs = length (filter (\<lambda>g. g) gs)"

text \<open>The invariant of the limiter that the data model states.\<close>

definition rl_inv :: "RateLimiter \<Rightarrow> bool" where
  "rl_inv rl = (0 \<le> tokens rl \<and> tokens rl \<le> maxAllowed rl)"

section \<open>Controller\<close>

text \<open>
  The fields of \<open>Controller\<close> that carry data. The mutex \<open>mu\<close> has no state of its
  own in the model (a step below is one critical section or one operation between two
  of them), and the unbuffered channel \<open>startBackup\<close> holds nothing: a send on it is a
  rendezvous with the receive.
\<close>

record Controller =
  appConn :: "conn option"
  providerMain :: "conn option"
  providerBackup :: "conn option"
  events :: "Event list"
  ratelimiter :: RateLimiter

text \<open>\<open>time.Hour\<close> and \<open>time.Minute\<close>, in nanoseconds.\<close>

definition Hour :: int where
  "Hour = 3600000000000"

definition Minute :: int where
  "Minute = 60000000000"

definition NewController :: "Controller option" where
  "NewController =
     (case NewRateLimiter 100 Hour of
        None \<Rightarrow> None
      | Some rl \<Rightarrow>
          Some \<lparr>appConn = None, providerMain = None, providerBackup = None,
                events = [], ratelimiter = rl\<rparr>)"

section \<open>The ingress reader\<close>

text \<open>
  One iteration of the loop of \<open>readEventsFromApp\<close>, on the result of
  \<open>ReadMessage\<close> (\<open>None\<close> is a read error): the buffer after it, and whether the
  loop goes on. The event is unmarshalled into a fresh zero value.
\<close>

definition read_iteration :: "unmarshal \<Rightarrow> frame option \<Rightarrow> Event list \<Rightarrow> Event list \<times> bool" where
  "read_iteration u res evs =
     (case res of
        None \<Rightarrow> (evs, False)
      | Some m \<Rightarrow>
          (case u m zero_Event of
             None \<Rightarrow> (evs, True)
           | Some e \<Rightarrow> (evs @ [e], True)))"

text \<open>
  The loop on the results of its successive reads. The second component tells whether
  the loop is still running (blocked in its next read) once the results are used up.
\<close>

fun readEventsFromApp :: "unmarshal \<Rightarrow> frame option list \<Rightarrow> Event list \<Rightarrow> Event list \<times> bool" where
  "readEventsFromApp u [] evs = (evs, True)"
| "readEventsFromApp u (res # rest) evs =
     (case read_iteration u res evs of
        (evs', on) \<Rightarrow> if on then readEventsFromApp u rest evs' else (evs', False))"

text \<open>The events that a list of frames decodes to, and the frames that decode.\<close>

definition decoded :: "unmarshal \<Rightarrow> frame list \<Rightarrow> Event list" where
  "decoded u fs = List.map_filter (\<lambda>f. u f zero_Event) fs"

definition decodes :: "unmarshal \<Rightarrow> frame \<Rightarrow> bool" where
  "decodes u f = (u f zero_Event \<noteq> None)"

section \<open>Provider workers\<close>

text \<open>
  The two calls of \<open>startWorker\<close> in \<open>main\<close> are told apart by their label.
\<close>

datatype role = MainWorker | BackupWorker

text \<open>
  What a run does that can be seen from outside, in the order in which it happens:
  a dial of a provider and whether it succeeded, a call of \<open>Allow\<close> and its verdict,
  a \<open>time.Sleep\<close> and its duration, the \<open>WriteMessage\<close> of the drain loop (with the
  index of the event, the frame and whether the write succeeded), the log line that
  ends the drain loop, the send on \<open>startBackup\<close> once it is received, and the
  \<open>ReadMessage\<close> and \<open>WriteMessage\<close> of the final loop.
\<close>

datatype effect =
    Dial role bool
  | AllowCall role bool
  | SleepFor role int
  | SendEvent role nat frame bool
  | Finished role
  | Signal role
  | ReadMsg role "frame option"
  | Forward role frame bool

text \<open>The places of the goroutine of \<open>startWorker\<close> between two steps.\<close>

datatype point =
    Check
  | Load
  | Permit
  | Sleep
  | Send
  | Drained
  | Fire
  | PtRead
  | PtWrite
  | Terminated

text \<open>
  The arguments and local variables of the goroutine of \<open>startWorker\<close>: \<open>idx\<close> is
  the loop variable \<open>i\<close>, \<open>cur_event\<close> is \<open>event\<close>, \<open>cur_msg\<close> is \<open>msg\<close>.
\<close>

record worker =
  ws :: conn
  triggerBackup :: bool
  pc :: point
  idx :: nat
  cur_event :: Event
  cur_msg :: frame

text \<open>The two goroutines of \<open>main\<close> that dial a provider.\<close>

datatype launcher = Waiting | Dialing | Launched

text \<open>
  The process: the controller, the number of goroutines running
  \<open>readEventsFromApp\<close>, the two goroutines of \<open>main\<close>, the two workers once
  started, whether the process has exited (\<open>log.Fatal\<close> or a panic), and what it has
  done so far.
\<close>

record system = Controller +
  readers :: nat
  mainSetup :: launcher
  backupSetup :: launcher
  workerMain :: "worker option"
  workerBackup :: "worker option"
  halted :: bool
  trace :: "effect list"

text \<open>\<open>main\<close> up to the point where its two goroutines are spawned.\<close>

definition boot :: "system option" where
  "boot =
     (case NewController of
        None \<Rightarrow> None
      | Some c \<Rightarrow>
          Some \<lparr>appConn = appConn c, providerMain = providerMain c,
                providerBackup = providerBackup c, events = events c,
                ratelimiter = ratelimiter c,
                readers = 0, mainSetup = Dialing, backupSetup = Waiting,
                workerMain = None, workerBackup = None, halted = False, trace = []\<rparr>)"

definition worker_of :: "role \<Rightarrow> system \<Rightarrow> worker option" where
  "worker_of r s = (case r of MainWorker \<Rightarrow> workerMain s | BackupWorker \<Rightarrow> workerBackup s)"

definition set_worker :: "role \<Rightarrow> worker \<Rightarrow> system \<Rightarrow> system" where
  "set_worker r w s =
     (case r of
        MainWorker \<Rightarrow> s\<lparr>workerMain := Some w\<rparr>
      | BackupWorker \<Rightarrow> s\<lparr>workerBackup := Some w\<rparr>)"

definition emit :: "effect \<Rightarrow> system \<Rightarrow> system" where
  "emit e s = s\<lparr>trace := trace s @ [e]\<rparr>"

text \<open>\<open>startWorker(ws, label, triggerBackup)\<close> spawns the goroutine, at \<open>i := 0\<close>.\<close>

definition startWorker :: "conn \<Rightarrow> role \<Rightarrow> bool \<Rightarrow> system \<Rightarrow> system" where
  "startWorker c r t s =
     set_worker r
       \<lparr>ws = c, triggerBackup = t, pc = Check, idx = 0,
        cur_event = zero_Event, cur_msg = []\<rparr> s"

text \<open>
  A step of a worker that does no websocket I/O:
  \<^item> \<open>Check\<close>: the loop test \<open>i < len(c.events)\<close>;
  \<^item> \<open>Load\<close>: \<open>event := c.events[i]\<close> (an index out of range would panic);
  \<^item> \<open>Permit\<close>: the test \<open>!c.ratelimiter.Allow()\<close>;
  \<^item> \<open>Sleep\<close>: \<open>time.Sleep(1 * time.Minute)\<close>, then the test again;
  \<^item> \<open>Drained\<close>: the log line after the loop and the test of \<open>triggerBackup\<close>;
  \<^item> \<open>Fire\<close>: \<open>c.startBackup <- struct{}{}\<close>, which blocks until the goroutine of
    \<open>main\<close> receives.
\<close>

definition work :: "role \<Rightarrow> worker \<Rightarrow> system \<Rightarrow> system" where
  "work r w s =
     (case pc w of
        Check \<Rightarrow>
          set_worker r (w\<lparr>pc := (if idx w < length (events s) then Load else Drained)\<rparr>) s
      | Load \<Rightarrow>
          (if idx w < length (events s)
           then set_worker r (w\<lparr>cur_event := events s ! idx w, pc := Permit\<rparr>) s
           else s\<lparr>halted := True\<rparr>)
      | Permit \<Rightarrow>
          (case Allow (ratelimiter s) of
             (g, rl') \<Rightarrow>
               set_worker r (w\<lparr>pc := (if g then Send else Sleep)\<rparr>)
                 (emit (AllowCall r g) (s\<lparr>ratelimiter := rl'\<rparr>)))
      | Sleep \<Rightarrow> set_worker r (w\<lparr>pc := Permit\<rparr>) (emit (SleepFor r Minute) s)
      | Drained \<Rightarrow>
          set_worker r (w\<lparr>pc := (if triggerBackup w then Fire else PtRead)\<rparr>)
            (emit (Finished r) s)
      | Fire \<Rightarrow>
          (if backupSetup s = Waiting
           then set_worker r (w\<lparr>pc := PtRead\<rparr>) (emit (Signal r) (s\<lparr>backupSetup := Dialing\<rparr>))
           else s)
      | _ \<Rightarrow> s)"

text \<open>
  \<open>ws.WriteMessage\<close> returns, with an error or not: in the drain loop
  (\<open>json.Marshal(event)\<close> is written, then \<open>i++\<close>) and in the final loop (\<open>msg\<close> is
  written as it was read).
\<close>

definition wrote :: "marshal \<Rightarrow> role \<Rightarrow> bool \<Rightarrow> worker \<Rightarrow> system \<Rightarrow> system" where
  "wrote m r ok w s =
     (case pc w of
        Send \<Rightarrow>
          set_worker r (if ok then w\<lparr>pc := Check, idx := idx w + 1\<rparr> else w\<lparr>pc := Terminated\<rparr>)
            (emit (SendEvent r (idx w) (m (cur_event w)) ok) s)
      | PtWrite \<Rightarrow>
          set_worker r (w\<lparr>pc := (if ok then PtRead else Terminated)\<rparr>)
            (emit (Forward r (cur_msg w) ok) s)
      | _ \<Rightarrow> s)"

text \<open>
  \<open>c.appConn.ReadMessage()\<close> of the final loop returns. With no app connection the
  receiver is nil and the call panics.
\<close>

definition readmsg :: "role \<Rightarrow> frame option \<Rightarrow> worker \<Rightarrow> system \<Rightarrow> system" where
  "readmsg r res w s =
     (case pc w of
        PtRead \<Rightarrow>
          (case appConn s of
             None \<Rightarrow> s\<lparr>halted := True\<rparr>
           | Some c \<Rightarrow>
               (case res of
                  None \<Rightarrow> set_worker r (w\<lparr>pc := Terminated\<rparr>) (emit (ReadMsg r None) s)
                | Some f \<Rightarrow>
                    set_worker r (w\<lparr>pc := PtWrite, cur_msg := f\<rparr>)
                      (emit (ReadMsg r (Some f)) s)))
      | _ \<Rightarrow> s)"

text \<open>
  \<open>handleAppConnection\<close> on the result of the upgrade: a failure is fatal, a
  connection replaces \<open>appConn\<close> and gets a reader of its own.
\<close>

definition handleAppConnection :: "conn option \<Rightarrow> system \<Rightarrow> system" where
  "handleAppConnection res s =
     (case res of
        None \<Rightarrow> s\<lparr>halted := True\<rparr>
      | Some c \<Rightarrow> s\<lparr>appConn := Some c, readers := readers s + 1\<rparr>)"

text \<open>A reader goroutine gets the result of its read.\<close>

definition ingress :: "unmarshal \<Rightarrow> frame option \<Rightarrow> system \<Rightarrow> system" where
  "ingress u res s =
     (if readers s = 0 then s
      else (case read_iteration u res (events s) of
              (evs', on) \<Rightarrow>
                s\<lparr>events := evs', readers := (if on then readers s else readers s - 1)\<rparr>))"

text \<open>
  The two goroutines of \<open>main\<close> on the result of their dial. The first dials at once;
  the second dials once it has received from \<open>startBackup\<close>. A failed dial is fatal.
\<close>

definition dial :: "role \<Rightarrow> conn option \<Rightarrow> system \<Rightarrow> system" where
  "dial r res s =
     (case r of
        MainWorker \<Rightarrow>
          (if mainSetup s = Dialing
           then (case res of
                   None \<Rightarrow> emit (Dial r False) (s\<lparr>halted := True\<rparr>)
                 | Some c \<Rightarrow>
                     startWorker c MainWorker True
                       (emit (Dial r True) (s\<lparr>providerMain := Some c, mainSetup := Launched\<rparr>)))
           else s)
      | BackupWorker \<Rightarrow>
          (if backupSetup s = Dialing
           then (case res of
                   None \<Rightarrow> emit (Dial r False) (s\<lparr>halted := True\<rparr>)
                 | Some c \<Rightarrow>
                     startWorker c BackupWorker False
                       (emit (Dial r True) (s\<lparr>providerBackup := Some c, backupSetup := Launched\<rparr>)))
           else s))"

section \<open>Runs of the process\<close>

text \<open>
  What happens next is chosen by the scheduler and by the outside world: a tick of the
  limiter's ticker, an upgrade request of the app, the result of a read of a reader
  goroutine, the result of a dial, a step of a worker, the results of a worker's write
  and read, and the return of \<open>http.ListenAndServe\<close>, after which \<open>main\<close> returns and
  the process exits. An action that cannot happen in a state leaves it as it is; nothing
  happens once the process has exited.
\<close>

datatype action =
    Tick
  | ListenReturns
  | Connect "conn option"
  | Ingress "frame option"
  | DialProvider role "conn option"
  | Step role
  | Write role bool
  | Read role "frame option"

definition step :: "unmarshal \<Rightarrow> marshal \<Rightarrow> action \<Rightarrow> system \<Rightarrow> system" where
  "step u m a s =
     (if halted s then s
      else (case a of
              Tick \<Rightarrow> s\<lparr>ratelimiter := refill (ratelimiter s)\<rparr>
            | ListenReturns \<Rightarrow> s\<lparr>halted := True\<rparr>
            | Connect res \<Rightarrow> handleAppConnection res s
            | Ingress res \<Rightarrow> ingress u res s
            | DialProvider r res \<Rightarrow> dial r res s
            | Step r \<Rightarrow> (case worker_of r s of None \<Rightarrow> s | Some w \<Rightarrow> work r w s)
            | Write r ok \<Rightarrow> (case worker_of r s of None \<Rightarrow> s | Some w \<Rightarrow> wrote m r ok w s)
            | Read r res \<Rightarrow> (case worker_of r s of None \<Rightarrow> s | Some w \<Rightarrow> readmsg r res w s)))"

fun run :: "unmarshal \<Rightarrow> marshal \<Rightarrow> action list \<Rightarrow> system \<Rightarrow> system" where
  "run u m [] s = s"
| "run u m (a # as) s = run u m as (step u m a s)"

text \<open>A run of \<open>main\<close>.\<close>

definition exec :: "unmarshal \<Rightarrow> marshal \<Rightarrow> action list \<Rightarrow> system option" where
  "exec u m as = (case boot of None \<Rightarrow> None | Some s \<Rightarrow> Some (run u m as s))"

section \<open>Reading a trace\<close>

fun role_of :: "effect \<Rightarrow> role" where
  "role_of (Dial r ok) = r"
| "role_of (AllowCall r g) = r"
| "role_of (SleepFor r d) = r"
| "role_of (SendEvent r k f ok) = r"
| "role_of (Finished r) = r"
| "role_of (Signal r) = r"
| "role_of (ReadMsg r res) = r"
| "role_of (Forward r f ok) = r"

definition effects_of :: "role \<Rightarrow> effect list \<Rightarrow> effect list" where
  "effects_of r tr = filter (\<lambda>e. role_of e = r) tr"

text \<open>The writes of the drain loop of a worker: index, frame, success.\<close>

fun send_of :: "role \<Rightarrow> effect \<Rightarrow> (nat \<times> frame \<times> bool) option" where
  "send_of r (SendEvent r' k f ok) = (if r' = r then Some (k, f, ok) else None)"
| "send_of r e = None"

definition drain_sends :: "role \<Rightarrow> effect list \<Rightarrow> (nat \<times> frame \<times> bool) list" where
  "drain_sends r tr = List.map_filter (send_of r) tr"

text \<open>The indexes of the buffer that a worker has sent from.\<close>

definition drained :: "role \<Rightarrow> effect list \<Rightarrow> nat list" where
  "drained r tr = map fst (drain_sends r tr)"

text \<open>The frames that have arrived on the provider connection of a worker.\<close>

fun written_of :: "role \<Rightarrow> effect \<Rightarrow> frame option" where
  "written_of r (SendEvent r' k f ok) = (if r' = r \<and> ok then Some f else None)"
| "written_of r (Forward r' f ok) = (if r' = r \<and> ok then Some f else None)"
| "written_of r e = None"

definition wire :: "role \<Rightarrow> effect list \<Rightarrow> frame list" where
  "wire r tr = List.map_filter (written_of r) tr"

text \<open>The frames a worker has read from the app, and those it has written on.\<close>

fun observed_of :: "role \<Rightarrow> effect \<Rightarrow> frame option" where
  "observed_of r (ReadMsg r' res) = (if r' = r then res else None)"
| "observed_of r e = None"

definition observed :: "role \<Rightarrow> effect list \<Rightarrow> frame list" where
  "observed r tr = List.map_filter (observed_of r) tr"

fun forward_of :: "role \<Rightarrow> effect \<Rightarrow> frame option" where
  "forward_of r (Forward r' f ok) = (if r' = r then Some f else None)"
| "forward_of r e = None"

definition forwarded :: "role \<Rightarrow> effect list \<Rightarrow> frame list" where
  "forwarded r tr = List.map_filter (forward_of r) tr"

text \<open>
  \<open>none_before P Q tr\<close>: in \<open>tr\<close>, nothing that satisfies \<open>P\<close> happens before the
  first thing that satisfies \<open>Q\<close> (and nothing at all if there is none).
\<close>

fun none_before :: "('a \<Rightarrow> bool) \<Rightarrow> ('a \<Rightarrow> bool) \<Rightarrow> 'a list \<Rightarrow> bool" where
  "none_before P Q [] = True"
| "none_before P Q (x # xs) = (if Q x then True else \<not> P x \<and> none_before P Q xs)"

fun is_signal :: "effect \<Rightarrow> bool" where
  "is_signal (Signal r) = True"
| "is_signal e = False"

section \<open>A sample of the JSON codec\<close>

text \<open>
  What \<open>encoding/json\<close> does with \<open>Event\<close> on a handful of frames, to run the model
  on concrete inputs: \<open>null\<close> and \<open>{}\<close> unmarshal without error and set no field, an
  object sets the fields it has, and every other frame of the sample is rejected. The
  marshalled form is the one of \<open>json.Marshal\<close> for fields that need no escaping.
\<close>

definition sample_unmarshal :: unmarshal where
  "sample_unmarshal f e =
     (if f = ''null'' \<or> f = ''{}'' then Some e
      else if f = ''{\"id\":\"1\",\"payload\":\"a\"}'' then Some (e\<lparr>ID := ''1'', Payload := ''a''\<rparr>)
      else if f = ''{\"id\":\"2\",\"payload\":\"b\"}'' then Some (e\<lparr>ID := ''2'', Payload := ''b''\<rparr>)
      else if f = ''{\"id\":\"3\"}'' then Some (e\<lparr>ID := ''3''\<rparr>)
      else None)"

definition sample_marshal :: marshal where
  "sample_marshal e = ''{\"id\":\"'' @ ID e @ ''\",\"payload\":\"'' @ Payload e @ ''\"}''"

section \<open>Invariants of the runs\<close>

text \<open>
  The places inside the drain loop; those where the index has been checked against the
  length of the buffer; and those where \<open>event\<close> holds the event at the index.
\<close>

fun draining :: "point \<Rightarrow> bool" where
  "draining Check = True"
| "draining Load = True"
| "draining Permit = True"
| "draining Sleep = True"
| "draining Send = True"
| "draining Drained = False"
| "draining Fire = False"
| "draining PtRead = False"
| "draining PtWrite = False"
| "draining Terminated = False"

fun checked :: "point \<Rightarrow> bool" where
  "checked Load = True"
| "checked Permit = True"
| "checked Sleep = True"
| "checked Send = True"
| "checked Check = False"
| "checked Drained = False"
| "checked Fire = False"
| "checked PtRead = False"
| "checked PtWrite = False"
| "checked Terminated = False"

fun loaded :: "point \<Rightarrow> bool" where
  "loaded Permit = True"
| "loaded Sleep = True"
| "loaded Send = True"
| "loaded Check = False"
| "loaded Load = False"
| "loaded Drained = False"
| "loaded Fire = False"
| "loaded PtRead = False"
| "loaded PtWrite = False"
| "loaded Terminated = False"

text \<open>
  A worker exists exactly when the goroutine of \<open>main\<close> that starts it has done so, and
  \<open>triggerBackup\<close> is what \<open>main\<close> passed.
\<close>

definition launch_inv :: "system \<Rightarrow> bool" where
  "launch_inv s =
     ((worker_of MainWorker s = None) = (mainSetup s \<noteq> Launched) \<and>
      (worker_of BackupWorker s = None) = (backupSetup s \<noteq> Launched) \<and>
      (case worker_of MainWorker s of None \<Rightarrow> True | Some w \<Rightarrow> triggerBackup w) \<and>
      (case worker_of BackupWorker s of None \<Rightarrow> True | Some w \<Rightarrow> \<not> triggerBackup w))"

text \<open>
  Inside the drain loop, the writes of the loop so far are the events below \<open>i\<close>, in
  order and all successful, nothing else has been written, and \<open>event\<close> is the one at
  \<open>i\<close>.
\<close>

definition drain_ok :: "marshal \<Rightarrow> Event list \<Rightarrow> (nat \<times> frame \<times> bool) list \<Rightarrow> frame list \<Rightarrow> worker \<Rightarrow> bool" where
  "drain_ok m evs sends wr w =
     ((draining (pc w) \<longrightarrow>
         sends = map (\<lambda>k. (k, m (evs ! k), True)) [0..<idx w] \<and>
         wr = map m (take (idx w) evs) \<and>
         idx w \<le> length evs) \<and>
      (checked (pc w) \<longrightarrow> idx w < length evs) \<and>
      (loaded (pc w) \<longrightarrow> idx w < length evs \<and> cur_event w = evs ! idx w))"

text \<open>At any time the indexes a worker has sent from are \<open>0, 1, 2, ...\<close> in order.\<close>

definition drain_inv :: "marshal \<Rightarrow> role \<Rightarrow> system \<Rightarrow> bool" where
  "drain_inv m r s =
     (drained r (trace s) = [0..<length (drained r (trace s))] \<and>
      (case worker_of r s of
         None \<Rightarrow> drain_sends r (trace s) = [] \<and> wire r (trace s) = []
       | Some w \<Rightarrow> drain_ok m (events s) (drain_sends r (trace s)) (wire r (trace s)) w))"

text \<open>A worker that has left its drain loop, for good.\<close>

definition past_drain :: "role \<Rightarrow> system \<Rightarrow> bool" where
  "past_drain r s = (case worker_of r s of None \<Rightarrow> False | Some w \<Rightarrow> \<not> draining (pc w))"

text \<open>
  What the backup side does: the dial of the backup provider and every effect of the
  backup worker.
\<close>

definition backup_effect :: "effect \<Rightarrow> bool" where
  "backup_effect e = (role_of e = BackupWorker)"

text \<open>The log line with which the main worker leaves its drain loop.\<close>

definition main_finished :: "effect \<Rightarrow> bool" where
  "main_finished e = (e = Finished MainWorker)"

text \<open>
  The failover signal in a run: it has been sent exactly when the goroutine of \<open>main\<close>
  is no longer waiting for it, at most once, by the main worker, after that worker's
  drain loop and before anything on the backup side.
\<close>

definition signal_inv :: "system \<Rightarrow> bool" where
  "signal_inv s =
     ((backupSetup s = Waiting) = (filter is_signal (trace s) = []) \<and>
      length (filter is_signal (trace s)) \<le> 1 \<and>
      Signal BackupWorker \<notin> set (trace s) \<and>
      none_before backup_effect is_signal (trace s) \<and>
      none_before is_signal main_finished (trace s) \<and>
      (case worker_of MainWorker s of
         None \<Rightarrow> filter is_signal (trace s) = []
       | Some w \<Rightarrow> pc w = Fire \<longrightarrow> Finished MainWorker \<in> set (trace s)) \<and>
      (case worker_of BackupWorker s of None \<Rightarrow> True | Some w \<Rightarrow> pc w \<noteq> Fire))"

text \<open>What a worker does only after its drain loop.\<close>

fun post_drain_effect :: "effect \<Rightarrow> bool" where
  "post_drain_effect (Finished r) = True"
| "post_drain_effect (Signal r) = True"
| "post_drain_effect (ReadMsg r res) = True"
| "post_drain_effect (Forward r f ok) = True"
| "post_drain_effect (Dial r ok) = False"
| "post_drain_effect (AllowCall r g) = False"
| "post_drain_effect (SleepFor r d) = False"
| "post_drain_effect (SendEvent r k f ok) = False"

definition after_drain :: "role \<Rightarrow> effect list \<Rightarrow> effect list" where
  "after_drain r tr = filter (\<lambda>e. role_of e = r \<and> post_drain_effect e) tr"

text \<open>A worker that is not started or is inside its drain loop has done none of that.\<close>

definition fresh_inv :: "role \<Rightarrow> system \<Rightarrow> bool" where
  "fresh_inv r s =
     (case worker_of r s of
        None \<Rightarrow> after_drain r (trace s) = []
      | Some w \<Rightarrow> draining (pc w) \<longrightarrow> after_drain r (trace s) = [])"

text \<open>
  The frames a worker has read from the app are the frames it has passed to
  \<open>WriteMessage\<close> in its final loop, in order, followed by the one it holds in \<open>msg\<close>
  when it is about to write.
\<close>

definition pass_inv :: "role \<Rightarrow> system \<Rightarrow> bool" where
  "pass_inv r s =
     (case worker_of r s of
        None \<Rightarrow> observed r (trace s) = [] \<and> forwarded r (trace s) = []
      | Some w \<Rightarrow>
          observed r (trace s) =
            forwarded r (trace s) @ (if pc w = PtWrite then [cur_msg w] else []))"

text \<open>
  The protocol between a worker and the limiter, in the words of the specification: a
  send needs a permit obtained just before it and uses it up; a denial is followed by a
  sleep of one minute, and the sleep by another call of the limiter. \<open>gated\<close> runs
  the effects of one worker through it; \<open>None\<close> means that the protocol was broken.
\<close>

datatype gate = Idle | Granted | Denied | Slept

fun gate_step :: "gate option \<Rightarrow> effect \<Rightarrow> gate option" where
  "gate_step None e = None"
| "gate_step (Some g) (AllowCall r ok) =
     (if g = Idle \<or> g = Slept then Some (if ok then Granted else Denied) else None)"
| "gate_step (Some g) (SleepFor r d) = (if g = Denied \<and> d = Minute then Some Slept else None)"
| "gate_step (Some g) (SendEvent r k f ok) = (if g = Granted then Some Idle else None)"
| "gate_step (Some g) (Dial r ok) = (if g = Idle then Some Idle else None)"
| "gate_step (Some g) (Finished r) = (if g = Idle then Some Idle else None)"
| "gate_step (Some g) (Signal r) = (if g = Idle then Some Idle else None)"
| "gate_step (Some g) (ReadMsg r res) = (if g = Idle then Some Idle else None)"
| "gate_step (Some g) (Forward r f ok) = (if g = Idle then Some Idle else None)"

definition gated :: "effect list \<Rightarrow> gate option" where
  "gated tr = foldl gate_step (Some Idle) tr"

text \<open>The permits a worker has obtained.\<close>

definition permits :: "role \<Rightarrow> effect list \<Rightarrow> nat" where
  "permits r tr = length (filter (\<lambda>e. e = AllowCall r True) tr)"

text \<open>Where the protocol stands at each place of the worker.\<close>

fun gate_at :: "point \<Rightarrow> gate \<Rightarrow> bool" where
  "gate_at Send g = (g = Granted)"
| "gate_at Sleep g = (g = Denied)"
| "gate_at Permit g = (g = Idle \<or> g = Slept)"
| "gate_at Check g = (g = Idle)"
| "gate_at Load g = (g = Idle)"
| "gate_at Drained g = (g = Idle)"
| "gate_at Fire g = (g = Idle)"
| "gate_at PtRead g = (g = Idle)"
| "gate_at PtWrite g = (g = Idle)"
| "gate_at Terminated g = (g = Idle)"

fun holds_permit :: "point \<Rightarrow> nat" where
  "holds_permit Send = 1"
| "holds_permit Sleep = 0"
| "holds_permit Permit = 0"
| "holds_permit Check = 0"
| "holds_permit Load = 0"
| "holds_permit Drained = 0"
| "holds_permit Fire = 0"
| "holds_permit PtRead = 0"
| "holds_permit PtWrite = 0"
| "holds_permit Terminated = 0"

definition gate_inv :: "role \<Rightarrow> system \<Rightarrow> bool" where
  "gate_inv r s =
     (case worker_of r s of
        None \<Rightarrow>
          gated (effects_of r (trace s)) = Some Idle \<and>
          permits r (trace s) = 0 \<and> drain_sends r (trace s) = []
      | Some w \<Rightarrow>
          (case gated (effects_of r (trace s)) of
             None \<Rightarrow> False
           | Some g \<Rightarrow> gate_at (pc w) g) \<and>
          permits r (trace s) = length (drain_sends r (trace s)) + holds_permit (pc w))"

text \<open>
  A schedule on which a worker goes through its drain loop alone: one turn of the loop
  (the loop test, the load, the limiter call, the write, all successful), and \<open>n\<close>
  turns followed by the loop test that ends the loop.
\<close>

definition drain_turn :: "role \<Rightarrow> action list" where
  "drain_turn r = [Step r, Step r, Step r, Write r True]"

definition drain_to_end :: "role \<Rightarrow> nat \<Rightarrow> action list" where
  "drain_to_end r n = concat (replicate n (drain_turn r)) @ [Step r]"

section \<open>The rate limiter: permits per window, and the invariant\<close>

lemma maxAllowed_Allow: "maxAllowed (snd (Allow rl)) = maxAllowed rl"
  by (simp add: Allow_def)

lemma maxAllowed_rl_calls: "maxAllowed (snd (rl_calls cs rl)) = maxAllowed rl"
proof (induction cs arbitrary: rl)
  case Nil
  then show ?case by simp
next
  case (Cons c cs)
  show ?case
  proof (cases c)
    case CallAllow
    then show ?thesis using Cons.IH [of "snd (Allow rl)"]
      by (simp add: split_beta maxAllowed_Allow)
  next
    case RefillTick
    then show ?thesis using Cons.IH [of "refill rl"] by (simp add: refill_def)
  qed
qed

lemma grants_tick_free:
  "RefillTick \<notin> set cs \<Longrightarrow>
     grants (fst (rl_calls cs rl)) = min (length cs) (nat (tokens rl))"
proof (induction cs arbitrary: rl)
  case Nil
  then show ?case by (simp add: grants_def)
next
  case (Cons c cs)
  then have c: "c = CallAllow" and free: "RefillTick \<notin> set cs"
    by (cases c; simp)+
  show ?case
  proof (cases "tokens rl > 0")
    case True
    then have "Allow rl = (True, rl\<lparr>tokens := tokens rl - 1\<rparr>)" by (simp add: Allow_def)
    moreover obtain k where k: "nat (tokens rl) = Suc k" "nat (tokens rl - 1) = k"
      using True by (cases "nat (tokens rl)") auto
    ultimately show ?thesis using Cons.IH [OF free, of "rl\<lparr>tokens := tokens rl - 1\<rparr>"] c
      by (simp add: split_beta grants_def)
  next
    case False
    then have "Allow rl = (False, rl)" by (simp add: Allow_def)
    then show ?thesis using Cons.IH [OF free, of rl] c False
      by (simp add: split_beta grants_def)
  qed
qed

lemma rl_inv_Allow: "rl_inv rl \<Longrightarrow> rl_inv (snd (Allow rl))"
  by (simp add: rl_inv_def Allow_def)

lemma rl_inv_refill: "0 \<le> maxAllowed rl \<Longrightarrow> rl_inv (refill rl)"
  by (simp add: rl_inv_def refill_def)

lemma rl_inv_rl_calls: "rl_inv rl \<Longrightarrow> rl_inv (snd (rl_calls cs rl))"
proof (induction cs arbitrary: rl)
  case Nil
  then show ?case by simp
next
  case (Cons c cs)
  show ?case
  proof (cases c)
    case CallAllow
    then show ?thesis using Cons.IH [OF rl_inv_Allow [OF Cons.prems]]
      by (simp add: split_beta)
  next
    case RefillTick
    have "0 \<le> maxAllowed rl" using Cons.prems by (simp add: rl_inv_def)
    then show ?thesis using RefillTick Cons.IH [OF rl_inv_refill] by simp
  qed
qed

text \<open>
  C3, as stated, fails for a negative \<open>max\<close>: the limiter built with \<open>max = -1\<close>
  grants no permit, and zero permits are more than \<open>max\<close>.
\<close>

theorem C3_negative_max_counterexample:
  "NewRateLimiter (- 1) 1 = Some \<lparr>tokens = - 1, maxAllowed = - 1\<rparr> \<and>
   \<not> int (grants (fst (rl_calls [CallAllow] \<lparr>tokens = - 1, maxAllowed = - 1\<rparr>))) \<le> - 1"
  by (simp add: NewRateLimiter_def Allow_def grants_def)

text \<open>
  C3, amended: for every \<open>max\<close> and every interval with which a limiter can be built,
  the limiter grants at most \<open>max\<close> permits between two consecutive ticks when
  \<open>max \<ge> 0\<close>, and none when \<open>max < 0\<close> (exactly the smaller of the number of calls
  and of \<open>max\<close> cut off at zero), in the window that follows the construction and in the
  window that follows any tick, whatever happened before it. \<open>Allow\<close> decrements and
  grants iff \<open>tokens > 0\<close> and denies otherwise with the limiter unchanged; a tick sets
  \<open>tokens\<close> to \<open>max\<close> whatever was consumed. With \<open>max = 2\<close>, five calls with no tick
  give two grants then three denials, and after the next tick two more calls are
  granted and a third is denied.
\<close>

theorem C3_permits_per_window:
  assumes "NewRateLimiter mx interval = Some rl" and "RefillTick \<notin> set seg"
  shows "Allow r = (if 0 < tokens r then (True, r\<lparr>tokens := tokens r - 1\<rparr>) else (False, r)) \<and>
         tokens (refill (snd (rl_calls hist rl))) = mx \<and>
         grants (fst (rl_calls seg rl)) = min (length seg) (nat mx) \<and>
         grants (fst (rl_calls seg (refill (snd (rl_calls hist rl))))) = min (length seg) (nat mx) \<and>
         int (grants (fst (rl_calls seg rl))) \<le> max 0 mx \<and>
         int (grants (fst (rl_calls seg (refill (snd (rl_calls hist rl)))))) \<le> max 0 mx \<and>
         (mx = 2 \<longrightarrow>
            fst (rl_calls [CallAllow, CallAllow, CallAllow, CallAllow, CallAllow] rl) =
              [True, True, False, False, False] \<and>
            fst (rl_calls [CallAllow, CallAllow, CallAllow, CallAllow, CallAllow,
                           RefillTick, CallAllow, CallAllow, CallAllow] rl) =
              [True, True, False, False, False, True, True, False])"
proof -
  have rl: "rl = \<lparr>tokens = mx, maxAllowed = mx\<rparr>"
    using assms(1) by (simp add: NewRateLimiter_def split: if_splits)
  have tick: "tokens (refill (snd (rl_calls hist rl))) = mx"
    using maxAllowed_rl_calls [of hist rl] by (simp add: refill_def rl)
  have first: "grants (fst (rl_calls seg rl)) = min (length seg) (nat mx)"
    using grants_tick_free [OF assms(2), of rl] by (simp add: rl)
  have later: "grants (fst (rl_calls seg (refill (snd (rl_calls hist rl))))) = min (length seg) (nat mx)"
    using grants_tick_free [OF assms(2), of "refill (snd (rl_calls hist rl))"] tick by simp
  have two: "mx = 2 \<longrightarrow>
            fst (rl_calls [CallAllow, CallAllow, CallAllow, CallAllow, CallAllow] rl) =
              [True, True, False, False, False] \<and>
            fst (rl_calls [CallAllow, CallAllow, CallAllow, CallAllow, CallAllow,
                           RefillTick, CallAllow, CallAllow, CallAllow] rl) =
              [True, True, False, False, False, True, True, False]"
    by (simp add: rl Allow_def refill_def)
  have "Allow r = (if 0 < tokens r then (True, r\<lparr>tokens := tokens r - 1\<rparr>) else (False, r))"
    by (simp add: Allow_def)
  then show ?thesis using tick first later two by simp
qed

theorem C3_permits_per_window_witness:
  "grants (fst (rl_calls [CallAllow, CallAllow, CallAllow]
      (refill (snd (rl_calls [CallAllow, RefillTick, CallAllow] \<lparr>tokens = 2, maxAllowed = 2\<rparr>))))) = 2 \<and>
   fst (rl_calls [CallAllow, CallAllow, CallAllow, CallAllow, CallAllow,
                  RefillTick, CallAllow, CallAllow, CallAllow] \<lparr>tokens = 2, maxAllowed = 2\<rparr>) =
     [True, True, False, False, False, True, True, False]"
proof -
  have built: "NewRateLimiter 2 10000000 = Some \<lparr>tokens = 2, maxAllowed = 2\<rparr>"
    by (simp add: NewRateLimiter_def)
  have free: "RefillTick \<notin> set [CallAllow, CallAllow, CallAllow]" by simp
  show ?thesis
    using C3_permits_per_window [OF built free, of "\<lparr>tokens = 0, maxAllowed = 2\<rparr>" "[CallAllow, RefillTick, CallAllow]"]
    by simp
qed

text \<open>
  C9: a limiter built with \<open>max \<ge> 0\<close> satisfies \<open>0 \<le> tokens \<le> max\<close> when it is built
  and after every history of \<open>Allow\<close> calls and ticks, its \<open>max\<close> never changes, each
  \<open>Allow\<close> and each tick preserves the invariant, and a tick sets \<open>tokens\<close> to \<open>max\<close>
  (it does not add to them).
\<close>

theorem C9_limiter_invariant:
  assumes "0 \<le> mx" and "NewRateLimiter mx interval = Some rl"
  shows "rl_inv rl \<and> maxAllowed rl = mx \<and>
         rl_inv (snd (rl_calls cs rl)) \<and> maxAllowed (snd (rl_calls cs rl)) = mx \<and>
         (rl_inv r \<longrightarrow> rl_inv (snd (Allow r)) \<and> rl_inv (refill r)) \<and>
         tokens (refill r) = maxAllowed r \<and> maxAllowed (refill r) = maxAllowed r"
proof -
  have rl: "rl = \<lparr>tokens = mx, maxAllowed = mx\<rparr>"
    using assms(2) by (simp add: NewRateLimiter_def split: if_splits)
  have init: "rl_inv rl" using assms(1) by (simp add: rl rl_inv_def)
  have hist: "rl_inv (snd (rl_calls cs rl))" by (rule rl_inv_rl_calls [OF init])
  have mx: "maxAllowed (snd (rl_calls cs rl)) = mx"
    using maxAllowed_rl_calls [of cs rl] by (simp add: rl)
  have pres: "rl_inv r \<longrightarrow> rl_inv (snd (Allow r)) \<and> rl_inv (refill r)"
    using rl_inv_Allow [of r] rl_inv_refill [of r] by (auto simp add: rl_inv_def)
  show ?thesis using init hist mx pres by (simp add: rl refill_def)
qed

theorem C9_limiter_invariant_witness:
  "rl_inv \<lparr>tokens = 2, maxAllowed = 2\<rparr> \<and>
   rl_inv (snd (rl_calls [CallAllow, CallAllow, CallAllow, RefillTick, CallAllow]
                  \<lparr>tokens = 2, maxAllowed = 2\<rparr>)) \<and>
   snd (rl_calls [CallAllow, CallAllow, CallAllow, RefillTick, CallAllow]
          \<lparr>tokens = 2, maxAllowed = 2\<rparr>) = \<lparr>tokens = 1, maxAllowed = 2\<rparr>"
proof -
  have nonneg: "(0::int) \<le> 2" by simp
  have built: "NewRateLimiter 2 10000000 = Some \<lparr>tokens = 2, maxAllowed = 2\<rparr>"
    by (simp add: NewRateLimiter_def)
  show ?thesis
    using C9_limiter_invariant [OF nonneg built,
        of "[CallAllow, CallAllow, CallAllow, RefillTick, CallAllow]" "\<lparr>tokens = 0, maxAllowed = 2\<rparr>"]
    by (simp add: Allow_def refill_def)
qed

section \<open>The ingress loop: malformed frames and what is appended\<close>

lemma decoded_Nil: "decoded u [] = []"
  by (simp add: decoded_def)

lemma decoded_Cons:
  "decoded u (f # fs) = (case u f zero_Event of None \<Rightarrow> decoded u fs | Some e \<Rightarrow> e # decoded u fs)"
  by (cases "u f zero_Event") (simp_all add: decoded_def List.map_filter_simps)

lemma length_decoded: "length (decoded u fs) = length (filter (decodes u) fs)"
  by (induction fs) (simp_all add: decoded_Nil decoded_Cons decodes_def split: option.splits)

lemma readEventsFromApp_frames:
  "readEventsFromApp u (map Some fs) evs = (evs @ decoded u fs, True)"
proof (induction fs arbitrary: evs)
  case Nil
  then show ?case by (simp add: decoded_Nil)
next
  case (Cons f fs)
  show ?case
  proof (cases "u f zero_Event")
    case None
    then show ?thesis using Cons.IH [of evs]
      by (simp add: read_iteration_def decoded_Cons)
  next
    case (Some e)
    then show ?thesis using Cons.IH [of "evs @ [e]"]
      by (simp add: read_iteration_def decoded_Cons)
  qed
qed

lemma step_Ingress_frame:
  "\<not> halted s \<Longrightarrow> 0 < readers s \<Longrightarrow>
     step u m (Ingress (Some f)) s = s\<lparr>events := events s @ decoded u [f]\<rparr>"
  by (simp add: step_def ingress_def read_iteration_def decoded_Cons decoded_Nil
      split: option.splits)

text \<open>
  C6: an iteration of the loop of \<open>readEventsFromApp\<close> on a frame that does not decode
  leaves the buffer as it is and the loop goes on; so over any sequence of frames the
  buffer becomes the old buffer followed by the events of the frames that decode, in
  order, its length grows by the number of those frames, and the loop is still running.
  A frame that does not decode between two that do leaves exactly their two events. In
  the process, such a frame changes nothing at all: the reader and the connection stay.
\<close>

theorem C6_malformed_frames_dropped:
  "(\<not> decodes u f \<longrightarrow> read_iteration u (Some f) evs = (evs, True)) \<and>
   readEventsFromApp u (map Some fs) evs = (evs @ decoded u fs, True) \<and>
   length (fst (readEventsFromApp u (map Some fs) evs)) =
     length evs + length (filter (decodes u) fs) \<and>
   (u f1 zero_Event = Some e1 \<and> \<not> decodes u f2 \<and> u f3 zero_Event = Some e3 \<longrightarrow>
      readEventsFromApp u [Some f1, Some f2, Some f3] evs = (evs @ [e1, e3], True)) \<and>
   (\<not> halted s \<and> 0 < readers s \<and> \<not> decodes u f \<longrightarrow> step u m (Ingress (Some f)) s = s)"
proof -
  have one: "\<not> decodes u f \<longrightarrow> read_iteration u (Some f) evs = (evs, True)"
    by (simp add: decodes_def read_iteration_def)
  have all: "readEventsFromApp u (map Some fs) evs = (evs @ decoded u fs, True)"
    by (rule readEventsFromApp_frames)
  have len: "length (fst (readEventsFromApp u (map Some fs) evs)) =
     length evs + length (filter (decodes u) fs)"
    by (simp add: all length_decoded)
  have three: "u f1 zero_Event = Some e1 \<and> \<not> decodes u f2 \<and> u f3 zero_Event = Some e3 \<longrightarrow>
      readEventsFromApp u [Some f1, Some f2, Some f3] evs = (evs @ [e1, e3], True)"
    by (simp add: decodes_def read_iteration_def)
  have sys: "\<not> halted s \<and> 0 < readers s \<and> \<not> decodes u f \<longrightarrow> step u m (Ingress (Some f)) s = s"
    using step_Ingress_frame [of s u m f] by (simp add: decodes_def decoded_Cons decoded_Nil)
  show ?thesis using one all len three sys by blast
qed

theorem C6_malformed_frames_dropped_witness:
  "readEventsFromApp sample_unmarshal
     [Some ''{\"id\":\"1\",\"payload\":\"a\"}'', Some ''not json'',
      Some ''{\"id\":\"2\",\"payload\":\"b\"}''] [] =
   ([\<lparr>ID = ''1'', Payload = ''a''\<rparr>, \<lparr>ID = ''2'', Payload = ''b''\<rparr>], True)"
  using C6_malformed_frames_dropped [of sample_unmarshal "''not json''" "[]" "[]"
      "''{\"id\":\"1\",\"payload\":\"a\"}''" "\<lparr>ID = ''1'', Payload = ''a''\<rparr>" "''not json''"
      "''{\"id\":\"2\",\"payload\":\"b\"}''" "\<lparr>ID = ''2'', Payload = ''b''\<rparr>"]
  by (simp add: sample_unmarshal_def decodes_def zero_Event_def)

text \<open>
  C10: an iteration of the loop of \<open>readEventsFromApp\<close> drops the frame exactly when
  \<open>json.Unmarshal\<close> returns an error; whenever it returns none, the event it produced
  from the zero value is appended as it is, with no further check. So a frame on which it
  sets no field (as \<open>encoding/json\<close> does for \<open>null\<close> and \<open>{}\<close>) appends the event
  with both fields empty, and a frame on which it sets one field appends the event with
  the other field empty.
\<close>

theorem C10_only_unmarshal_errors_drop:
  "(case u f zero_Event of
      None \<Rightarrow> read_iteration u (Some f) evs = (evs, True)
    | Some e \<Rightarrow> read_iteration u (Some f) evs = (evs @ [e], True)) \<and>
   (fst (read_iteration u (Some f) evs) = evs) = (u f zero_Event = None) \<and>
   (u f zero_Event = Some zero_Event \<longrightarrow>
      fst (read_iteration u (Some f) evs) = evs @ [\<lparr>ID = [], Payload = []\<rparr>]) \<and>
   (u f zero_Event = Some (zero_Event\<lparr>ID := i\<rparr>) \<longrightarrow>
      fst (read_iteration u (Some f) evs) = evs @ [\<lparr>ID = i, Payload = []\<rparr>]) \<and>
   (u f zero_Event = Some (zero_Event\<lparr>Payload := p\<rparr>) \<longrightarrow>
      fst (read_iteration u (Some f) evs) = evs @ [\<lparr>ID = [], Payload = p\<rparr>]) \<and>
   (\<not> halted s \<and> 0 < readers s \<and> u f zero_Event = Some e \<longrightarrow>
      step u m (Ingress (Some f)) s = s\<lparr>events := events s @ [e]\<rparr>)"
proof -
  have sys: "\<not> halted s \<and> 0 < readers s \<and> u f zero_Event = Some e \<longrightarrow>
      step u m (Ingress (Some f)) s = s\<lparr>events := events s @ [e]\<rparr>"
    using step_Ingress_frame [of s u m f] by (simp add: decoded_Cons decoded_Nil)
  show ?thesis using sys
    by (simp add: read_iteration_def zero_Event_def split: option.splits)
qed

theorem C10_only_unmarshal_errors_drop_witness:
  "fst (read_iteration sample_unmarshal (Some ''null'') []) = [\<lparr>ID = [], Payload = []\<rparr>] \<and>
   fst (read_iteration sample_unmarshal (Some ''{}'') []) = [\<lparr>ID = [], Payload = []\<rparr>] \<and>
   fst (read_iteration sample_unmarshal (Some ''{\"id\":\"3\"}'') []) = [\<lparr>ID = ''3'', Payload = []\<rparr>]"
  using C10_only_unmarshal_errors_drop [of sample_unmarshal "''null''" "[]"]
    C10_only_unmarshal_errors_drop [of sample_unmarshal "''{}''" "[]"]
    C10_only_unmarshal_errors_drop [of sample_unmarshal "''{\"id\":\"3\"}''" "[]" "''3''"]
  by (simp add: sample_unmarshal_def zero_Event_def)

section \<open>The process: workers, failover and pass-through\<close>

lemma run_append: "run u m (xs @ ys) s = run u m ys (run u m xs s)"
  by (induction xs arbitrary: s) simp_all

lemma run_halted: "halted s \<Longrightarrow> run u m as s = s"
  by (induction as) (simp_all add: step_def)

lemma run_invariant:
  assumes "\<And>a s. I s \<Longrightarrow> I (step u m a s)" and "I s"
  shows "I (run u m as s)"
  using assms(2) by (induction as arbitrary: s) (simp_all add: assms(1))

lemma boot_state:
  "boot = Some \<lparr>appConn = None, providerMain = None, providerBackup = None, events = [],
      ratelimiter = \<lparr>tokens = 100, maxAllowed = 100\<rparr>,
      readers = 0, mainSetup = Dialing, backupSetup = Waiting,
      workerMain = None, workerBackup = None, halted = False, trace = []\<rparr>"
  by (simp add: boot_def NewController_def NewRateLimiter_def Hour_def)

lemma map_filter_snoc:
  "List.map_filter f (xs @ [x]) =
     List.map_filter f xs @ (case f x of None \<Rightarrow> [] | Some y \<Rightarrow> [y])"
  by (cases "f x") (simp_all add: List.map_filter_def)

lemma drain_sends_snoc:
  "drain_sends r (tr @ [e]) =
     drain_sends r tr @ (case send_of r e of None \<Rightarrow> [] | Some y \<Rightarrow> [y])"
  by (simp add: drain_sends_def map_filter_snoc)

subsection \<open>What the building blocks of a step change\<close>

lemma worker_of_set_worker:
  "worker_of r (set_worker r' w s) = (if r = r' then Some w else worker_of r s)"
  by (cases r; cases r') (simp_all add: worker_of_def set_worker_def)

lemma fields_set_worker:
  "trace (set_worker r w s) = trace s"
  "events (set_worker r w s) = events s"
  "ratelimiter (set_worker r w s) = ratelimiter s"
  "appConn (set_worker r w s) = appConn s"
  "readers (set_worker r w s) = readers s"
  "mainSetup (set_worker r w s) = mainSetup s"
  "backupSetup (set_worker r w s) = backupSetup s"
  "halted (set_worker r w s) = halted s"
  by (cases r; simp add: set_worker_def)+

lemma fields_emit:
  "trace (emit e s) = trace s @ [e]"
  "events (emit e s) = events s"
  "ratelimiter (emit e s) = ratelimiter s"
  "appConn (emit e s) = appConn s"
  "readers (emit e s) = readers s"
  "mainSetup (emit e s) = mainSetup s"
  "backupSetup (emit e s) = backupSetup s"
  "halted (emit e s) = halted s"
  "worker_of r (emit e s) = worker_of r s"
  by (simp_all add: emit_def worker_of_def split: role.splits)

lemma worker_of_update:
  "worker_of r (s\<lparr>ratelimiter := rl\<rparr>) = worker_of r s"
  "worker_of r (s\<lparr>events := evs\<rparr>) = worker_of r s"
  "worker_of r (s\<lparr>readers := n\<rparr>) = worker_of r s"
  "worker_of r (s\<lparr>appConn := c\<rparr>) = worker_of r s"
  "worker_of r (s\<lparr>providerMain := c\<rparr>) = worker_of r s"
  "worker_of r (s\<lparr>providerBackup := c\<rparr>) = worker_of r s"
  "worker_of r (s\<lparr>mainSetup := l\<rparr>) = worker_of r s"
  "worker_of r (s\<lparr>backupSetup := l\<rparr>) = worker_of r s"
  "worker_of r (s\<lparr>halted := h\<rparr>) = worker_of r s"
  by (simp_all add: worker_of_def split: role.splits)

lemmas sys_simps = worker_of_set_worker fields_set_worker fields_emit worker_of_update

subsection \<open>The steps, one case for each thing that can happen\<close>

lemma step_cases [case_names stutter tick crash connect reader_stops append dial_fails
    dial_main dial_backup check load permit sleep drained fire send send_fails forward
    read_fails read]:
  assumes "Q s"
    and "\<not> halted s \<Longrightarrow> Q (s\<lparr>ratelimiter := refill (ratelimiter s)\<rparr>)"
    and "\<not> halted s \<Longrightarrow> Q (s\<lparr>halted := True\<rparr>)"
    and "\<And>c. \<not> halted s \<Longrightarrow> Q (s\<lparr>appConn := Some c, readers := readers s + 1\<rparr>)"
    and "\<not> halted s \<Longrightarrow> 0 < readers s \<Longrightarrow> Q (s\<lparr>readers := readers s - 1\<rparr>)"
    and "\<And>f e. \<not> halted s \<Longrightarrow> 0 < readers s \<Longrightarrow> u f zero_Event = Some e \<Longrightarrow>
           Q (s\<lparr>events := events s @ [e]\<rparr>)"
    and "\<And>r. \<not> halted s \<Longrightarrow>
           (case r of MainWorker \<Rightarrow> mainSetup s | BackupWorker \<Rightarrow> backupSetup s) = Dialing \<Longrightarrow>
           Q (emit (Dial r False) (s\<lparr>halted := True\<rparr>))"
    and "\<And>c. \<not> halted s \<Longrightarrow> mainSetup s = Dialing \<Longrightarrow>
           Q (startWorker c MainWorker True
                (emit (Dial MainWorker True) (s\<lparr>providerMain := Some c, mainSetup := Launched\<rparr>)))"
    and "\<And>c. \<not> halted s \<Longrightarrow> backupSetup s = Dialing \<Longrightarrow>
           Q (startWorker c BackupWorker False
                (emit (Dial BackupWorker True) (s\<lparr>providerBackup := Some c, backupSetup := Launched\<rparr>)))"
    and "\<And>r w. \<not> halted s \<Longrightarrow> worker_of r s = Some w \<Longrightarrow> pc w = Check \<Longrightarrow>
           Q (set_worker r (w\<lparr>pc := (if idx w < length (events s) then Load else Drained)\<rparr>) s)"
    and "\<And>r w. \<not> halted s \<Longrightarrow> worker_of r s = Some w \<Longrightarrow> pc w = Load \<Longrightarrow>
           idx w < length (events s) \<Longrightarrow>
           Q (set_worker r (w\<lparr>cur_event := events s ! idx w, pc := Permit\<rparr>) s)"
    and "\<And>r w g rl'. \<not> halted s \<Longrightarrow> worker_of r s = Some w \<Longrightarrow> pc w = Permit \<Longrightarrow>
           Allow (ratelimiter s) = (g, rl') \<Longrightarrow>
           Q (set_worker r (w\<lparr>pc := (if g then Send else Sleep)\<rparr>)
                (emit (AllowCall r g) (s\<lparr>ratelimiter := rl'\<rparr>)))"
    and "\<And>r w. \<not> halted s \<Longrightarrow> worker_of r s = Some w \<Longrightarrow> pc w = Sleep \<Longrightarrow>
           Q (set_worker r (w\<lparr>pc := Permit\<rparr>) (emit (SleepFor r Minute) s))"
    and "\<And>r w. \<not> halted s \<Longrightarrow> worker_of r s = Some w \<Longrightarrow> pc w = Drained \<Longrightarrow>
           Q (set_worker r (w\<lparr>pc := (if triggerBackup w then Fire else PtRead)\<rparr>)
                (emit (Finished r) s))"
    and "\<And>r w. \<not> halted s \<Longrightarrow> worker_of r s = Some w \<Longrightarrow> pc w = Fire \<Longrightarrow>
           backupSetup s = Waiting \<Longrightarrow>
           Q (set_worker r (w\<lparr>pc := PtRead\<rparr>) (emit (Signal r) (s\<lparr>backupSetup := Dialing\<rparr>)))"
    and "\<And>r w. \<not> halted s \<Longrightarrow> worker_of r s = Some w \<Longrightarrow> pc w = Send \<Longrightarrow>
           Q (set_worker r (w\<lparr>pc := Check, idx := idx w + 1\<rparr>)
                (emit (SendEvent r (idx w) (m (cur_event w)) True) s))"
    and "\<And>r w. \<not> halted s \<Longrightarrow> worker_of r s = Some w \<Longrightarrow> pc w = Send \<Longrightarrow>
           Q (set_worker r (w\<lparr>pc := Terminated\<rparr>)
                (emit (SendEvent r (idx w) (m (cur_event w)) False) s))"
    and "\<And>r w ok. \<not> halted s \<Longrightarrow> worker_of r s = Some w \<Longrightarrow> pc w = PtWrite \<Longrightarrow>
           Q (set_worker r (w\<lparr>pc := (if ok then PtRead else Terminated)\<rparr>)
                (emit (Forward r (cur_msg w) ok) s))"
    and "\<And>r w c. \<not> halted s \<Longrightarrow> worker_of r s = Some w \<Longrightarrow> pc w = PtRead \<Longrightarrow>
           appConn s = Some c \<Longrightarrow>
           Q (set_worker r (w\<lparr>pc := Terminated\<rparr>) (emit (ReadMsg r None) s))"
    and "\<And>r w c f. \<not> halted s \<Longrightarrow> worker_of r s = Some w \<Longrightarrow> pc w = PtRead \<Longrightarrow>
           appConn s = Some c \<Longrightarrow>
           Q (set_worker r (w\<lparr>pc := PtWrite, cur_msg := f\<rparr>) (emit (ReadMsg r (Some f)) s))"
  shows "Q (step u m a s)"
proof (cases "halted s")
  case True
  then show ?thesis using assms(1) by (simp add: step_def)
next
  case False
  show ?thesis
  proof (cases a)
    case Tick
    then show ?thesis using assms(2) False by (simp add: step_def)
  next
    case ListenReturns
    then show ?thesis using assms(3) False by (simp add: step_def)
  next
    case (Connect res)
    then show ?thesis using assms(3,4) False
      by (cases res) (simp_all add: step_def handleAppConnection_def)
  next
    case (Ingress res)
    show ?thesis
    proof (cases "readers s = 0")
      case True
      then show ?thesis using assms(1) False Ingress by (simp add: step_def ingress_def)
    next
      case live: False
      show ?thesis
      proof (cases res)
        case None
        then show ?thesis using assms(5) False Ingress live
          by (simp add: step_def ingress_def read_iteration_def)
      next
        case (Some f)
        then show ?thesis using assms(1) assms(6) [of f] False Ingress live
          by (cases "u f zero_Event") (simp_all add: step_def ingress_def read_iteration_def)
      qed
    qed
  next
    case (DialProvider r res)
    then show ?thesis
      using assms(1) assms(7) [of r] assms(8,9) False
      by (cases r; cases res) (simp_all add: step_def dial_def)
  next
    case (Step r)
    show ?thesis
    proof (cases "worker_of r s")
      case None
      then show ?thesis using assms(1) False Step by (simp add: step_def)
    next
      case (Some w)
      have st: "step u m a s = work r w s" using False Step Some by (simp add: step_def)
      show ?thesis
      proof (cases "pc w")
        case Check
        then show ?thesis using assms(10) [OF False Some] by (simp add: st work_def)
      next
        case Load
        then show ?thesis using assms(11) [OF False Some] assms(3) [OF False]
          by (simp add: st work_def)
      next
        case Permit
        then show ?thesis using assms(12) [OF False Some, of "fst (Allow (ratelimiter s))" "snd (Allow (ratelimiter s))"]
          by (simp add: st work_def split_beta)
      next
        case Sleep
        then show ?thesis using assms(13) [OF False Some] by (simp add: st work_def)
      next
        case Drained
        then show ?thesis using assms(14) [OF False Some] by (simp add: st work_def)
      next
        case Fire
        then show ?thesis using assms(15) [OF False Some] assms(1) by (simp add: st work_def)
      qed (use assms(1) in \<open>simp_all add: st work_def\<close>)
    qed
  next
    case (Write r ok)
    show ?thesis
    proof (cases "worker_of r s")
      case None
      then show ?thesis using assms(1) False Write by (simp add: step_def)
    next
      case (Some w)
      have st: "step u m a s = wrote m r ok w s" using False Write Some by (simp add: step_def)
      show ?thesis
      proof (cases "pc w")
        case Send
        then show ?thesis using assms(16) [OF False Some] assms(17) [OF False Some]
          by (cases ok) (simp_all add: st wrote_def)
      next
        case PtWrite
        then show ?thesis using assms(18) [OF False Some, of ok] by (simp add: st wrote_def)
      qed (use assms(1) in \<open>simp_all add: st wrote_def\<close>)
    qed
  next
    case (Read r res)
    show ?thesis
    proof (cases "worker_of r s")
      case None
      then show ?thesis using assms(1) False Read by (simp add: step_def)
    next
      case (Some w)
      have st: "step u m a s = readmsg r res w s" using False Read Some by (simp add: step_def)
      show ?thesis
      proof (cases "pc w")
        case PtRead
        show ?thesis
        proof (cases "appConn s")
          case None
          then show ?thesis using assms(3) [OF False] PtRead by (simp add: st readmsg_def)
        next
          case conn: (Some c)
          then show ?thesis
            using assms(19) [OF False Some PtRead conn] assms(20) [OF False Some PtRead conn] PtRead
            by (cases res) (simp_all add: st readmsg_def)
        qed
      qed (use assms(1) in \<open>simp_all add: st readmsg_def\<close>)
    qed
  qed
qed

lemma launch_inv_step:
  assumes "launch_inv s"
  shows "launch_inv (step u m a s)"
  by (rule step_cases [where Q = launch_inv])
    (use assms in \<open>auto simp add: launch_inv_def startWorker_def sys_simps\<close>)

lemma boot_launch_inv: "boot = Some s \<Longrightarrow> launch_inv s"
  by (auto simp add: boot_state launch_inv_def worker_of_def)

lemma exec_run: "exec u m as = Some s \<Longrightarrow> \<exists>s0. boot = Some s0 \<and> s = run u m as s0"
  by (auto simp add: exec_def boot_state)

lemma reach_launch_inv:
  assumes "exec u m as = Some s"
  shows "launch_inv s"
proof -
  obtain s0 where "boot = Some s0" and s: "s = run u m as s0"
    using exec_run [OF assms] by blast
  then have "launch_inv s0" by (simp add: boot_launch_inv)
  show ?thesis unfolding s
    by (rule run_invariant [where I = launch_inv])
      (simp_all add: launch_inv_step \<open>launch_inv s0\<close>)
qed

subsection \<open>The drain loop\<close>

lemma map_filter_append:
  "List.map_filter f (xs @ ys) = List.map_filter f xs @ List.map_filter f ys"
  by (simp add: List.map_filter_def)

lemma drained_snoc:
  "drained r (tr @ [e]) =
     drained r tr @ (case send_of r e of None \<Rightarrow> [] | Some y \<Rightarrow> [fst y])"
  by (cases "send_of r e") (simp_all add: drained_def drain_sends_snoc)

lemma wire_snoc:
  "wire r (tr @ [e]) = wire r tr @ (case written_of r e of None \<Rightarrow> [] | Some f \<Rightarrow> [f])"
  by (simp add: wire_def map_filter_snoc)

lemma drained_length: "length (drained r tr) = length (drain_sends r tr)"
  by (simp add: drained_def)

lemmas trace_simps = drain_sends_snoc drained_snoc wire_snoc

lemma drain_ok_append:
  "drain_ok m evs sends wr w \<Longrightarrow> drain_ok m (evs @ [e]) sends wr w"
  by (auto simp add: drain_ok_def nth_append)

lemma drain_inv_step:
  assumes "launch_inv s" and "drain_inv m r s"
  shows "drain_inv m r (step u m a s)"
proof (rule step_cases [where Q = "drain_inv m r"], goal_cases)
  case 1
  then show ?case using assms(2) .
next
  case 2
  then show ?case using assms(2) by (simp add: drain_inv_def sys_simps split: option.splits)
next
  case 3
  then show ?case using assms(2) by (simp add: drain_inv_def sys_simps split: option.splits)
next
  case (4 c)
  then show ?case using assms(2) by (simp add: drain_inv_def sys_simps split: option.splits)
next
  case 5
  then show ?case using assms(2) by (simp add: drain_inv_def sys_simps split: option.splits)
next
  case (6 f e)
  then show ?case using assms(2)
    by (auto simp add: drain_inv_def sys_simps drain_ok_append split: option.splits)
next
  case (7 r')
  then show ?case using assms(2) by (simp add: drain_inv_def sys_simps trace_simps split: option.splits)
next
  case (8 c)
  then show ?case using assms
    by (cases r) (simp_all add: drain_inv_def launch_inv_def startWorker_def drain_ok_def
        sys_simps trace_simps split: option.splits)
next
  case (9 c)
  then show ?case using assms
    by (cases r) (simp_all add: drain_inv_def launch_inv_def startWorker_def drain_ok_def
        sys_simps trace_simps split: option.splits)
next
  case (10 r' w)
  then show ?case using assms(2)
    by (cases "r = r'") (auto simp add: drain_inv_def drain_ok_def sys_simps split: option.splits)
next
  case (11 r' w)
  then show ?case using assms(2)
    by (cases "r = r'") (auto simp add: drain_inv_def drain_ok_def sys_simps split: option.splits)
next
  case (12 r' w g rl')
  then show ?case using assms(2)
    by (cases "r = r'") (auto simp add: drain_inv_def drain_ok_def sys_simps trace_simps split: option.splits)
next
  case (13 r' w)
  then show ?case using assms(2)
    by (cases "r = r'") (auto simp add: drain_inv_def drain_ok_def sys_simps trace_simps split: option.splits)
next
  case (14 r' w)
  then show ?case using assms(2)
    by (cases "r = r'") (auto simp add: drain_inv_def drain_ok_def sys_simps trace_simps split: option.splits)
next
  case (15 r' w)
  then show ?case using assms(2)
    by (cases "r = r'") (auto simp add: drain_inv_def drain_ok_def sys_simps trace_simps split: option.splits)
next
  case (16 r' w)
  then show ?case using assms(2)
    by (cases "r = r'")
      (auto simp add: drain_inv_def drain_ok_def sys_simps trace_simps drained_length
        take_Suc_conv_app_nth split: option.splits)
next
  case (17 r' w)
  then show ?case using assms(2)
    by (cases "r = r'")
      (auto simp add: drain_inv_def drain_ok_def sys_simps trace_simps drained_length split: option.splits)
next
  case (18 r' w ok)
  then show ?case using assms(2)
    by (cases "r = r'") (auto simp add: drain_inv_def drain_ok_def sys_simps trace_simps split: option.splits)
next
  case (19 r' w c)
  then show ?case using assms(2)
    by (cases "r = r'") (auto simp add: drain_inv_def drain_ok_def sys_simps trace_simps split: option.splits)
next
  case (20 r' w c f)
  then show ?case using assms(2)
    by (cases "r = r'") (auto simp add: drain_inv_def drain_ok_def sys_simps trace_simps split: option.splits)
qed

lemma boot_drain_inv: "boot = Some s \<Longrightarrow> drain_inv m r s"
  by (auto simp add: boot_state drain_inv_def worker_of_def drained_def drain_sends_def
      wire_def List.map_filter_simps split: role.splits)

lemma reach_drain_inv:
  assumes "exec u m as = Some s"
  shows "drain_inv m r s"
proof -
  obtain s0 where b: "boot = Some s0" and s: "s = run u m as s0"
    using exec_run [OF assms] by blast
  have "launch_inv (run u m as s0) \<and> drain_inv m r (run u m as s0)"
    by (rule run_invariant [where I = "\<lambda>s. launch_inv s \<and> drain_inv m r s"])
      (simp_all add: launch_inv_step drain_inv_step boot_launch_inv [OF b] boot_drain_inv [OF b])
  then show ?thesis by (simp add: s)
qed

lemma past_drain_step:
  assumes "launch_inv s" and "past_drain r s"
  shows "past_drain r (step u m a s) \<and>
         drain_sends r (trace (step u m a s)) = drain_sends r (trace s)"
  by (rule step_cases [where Q = "\<lambda>s'. past_drain r s' \<and> drain_sends r (trace s') = drain_sends r (trace s)"])
    (use assms in \<open>auto simp add: past_drain_def launch_inv_def startWorker_def sys_simps
        trace_simps split: option.splits role.splits\<close>)

lemma past_drain_run:
  assumes "launch_inv s" and "past_drain r s"
  shows "drain_sends r (trace (run u m as s)) = drain_sends r (trace s)"
proof -
  let ?I = "\<lambda>s'. launch_inv s' \<and> past_drain r s' \<and>
                 drain_sends r (trace s') = drain_sends r (trace s)"
  have "?I (run u m as s)"
    by (rule run_invariant [where I = ?I])
      (use assms in \<open>auto simp add: launch_inv_step past_drain_step\<close>)
  then show ?thesis by simp
qed

lemma trace_step: "\<exists>more. trace (step u m a s) = trace s @ more"
  by (rule step_cases [where Q = "\<lambda>s'. \<exists>more. trace s' = trace s @ more"])
    (simp_all add: startWorker_def sys_simps)

lemma trace_run: "\<exists>more. trace (run u m as s) = trace s @ more"
proof (induction as arbitrary: s)
  case Nil
  then show ?case by simp
next
  case (Cons a as)
  obtain m1 where m1: "trace (step u m a s) = trace s @ m1"
    using trace_step by blast
  obtain m2 where "trace (run u m as (step u m a s)) = trace (step u m a s) @ m2"
    using Cons.IH by blast
  then show ?case by (simp add: m1)
qed

lemma wire_append: "wire r (xs @ ys) = wire r xs @ wire r ys"
  by (simp add: wire_def map_filter_append)

lemma exec_total: "\<exists>s. exec u m as = Some s"
  by (simp add: exec_def boot_state)

lemma exec_append:
  "exec u m as1 = Some s1 \<Longrightarrow> exec u m (as1 @ as2) = Some (run u m as2 s1)"
  by (auto simp add: exec_def boot_state run_append)

lemma drain_complete:
  assumes "exec u m as1 = Some s1" and "worker_of r s1 = Some w"
    and at: "pc w = Check" and full: "\<not> idx w < length (events s1)"
  shows "drain_sends r (trace (run u m (Step r # as2) s1)) =
           map (\<lambda>k. (k, m (events s1 ! k), True)) [0..<length (events s1)] \<and>
         take (length (events s1)) (wire r (trace (run u m (Step r # as2) s1))) =
           map m (events s1)"
proof -
  have inv: "drain_ok m (events s1) (drain_sends r (trace s1)) (wire r (trace s1)) w"
    using reach_drain_inv [OF assms(1), where r = r] assms(2) by (simp add: drain_inv_def)
  have len: "idx w = length (events s1)"
    and sends: "drain_sends r (trace s1) =
      map (\<lambda>k. (k, m (events s1 ! k), True)) [0..<length (events s1)]"
    and wr: "wire r (trace s1) = map m (events s1)"
    using inv at full by (auto simp add: drain_ok_def)
  let ?s = "step u m (Step r) s1"
  have tr: "trace ?s = trace s1"
    using assms(2) at by (simp add: step_def work_def sys_simps)
  have "launch_inv ?s"
    by (rule launch_inv_step [OF reach_launch_inv [OF assms(1)]])
  moreover have "halted s1 \<or> past_drain r ?s"
    using assms(2) at full by (auto simp add: step_def work_def past_drain_def sys_simps)
  ultimately have "drain_sends r (trace (run u m as2 ?s)) = drain_sends r (trace ?s)"
    using past_drain_run [of ?s r u m as2] run_halted [of s1 u m "Step r # as2"]
      run_halted [of s1 u m "[Step r]"]
    by auto
  then have a: "drain_sends r (trace (run u m (Step r # as2) s1)) =
      map (\<lambda>k. (k, m (events s1 ! k), True)) [0..<length (events s1)]"
    by (simp add: tr sends)
  obtain more where "trace (run u m as2 ?s) = trace ?s @ more"
    using trace_run by blast
  then have "wire r (trace (run u m (Step r # as2) s1)) = map m (events s1) @ wire r more"
    by (simp add: tr wire_append wr)
  then have "take (length (events s1)) (wire r (trace (run u m (Step r # as2) s1))) =
      map m (events s1)"
    by simp
  then show ?thesis using a by simp
qed

text \<open>The steps of the drain loop of a worker, one by one.\<close>

lemma drain_steps:
  assumes "\<not> halted s" and "worker_of r s = Some w"
  shows "pc w = Check \<longrightarrow>
           step u m (Step r) s =
             set_worker r (w\<lparr>pc := (if idx w < length (events s) then Load else Drained)\<rparr>) s"
    and "pc w = Load \<and> idx w < length (events s) \<longrightarrow>
           step u m (Step r) s =
             set_worker r (w\<lparr>cur_event := events s ! idx w, pc := Permit\<rparr>) s"
    and "pc w = Send \<longrightarrow>
           step u m (Write r True) s =
             set_worker r (w\<lparr>pc := Check, idx := idx w + 1\<rparr>)
               (emit (SendEvent r (idx w) (m (cur_event w)) True) s)"
  using assms by (auto simp add: step_def work_def wrote_def)

text \<open>Nobody but the worker itself moves it.\<close>

lemma worker_of_work_other: "r' \<noteq> r \<Longrightarrow> worker_of r (work r' w' s) = worker_of r s"
  by (cases "pc w'") (simp_all add: work_def sys_simps split_beta)

lemma worker_of_wrote_other: "r' \<noteq> r \<Longrightarrow> worker_of r (wrote m r' ok w' s) = worker_of r s"
  by (cases "pc w'") (simp_all add: wrote_def sys_simps)

lemma worker_of_readmsg_other: "r' \<noteq> r \<Longrightarrow> worker_of r (readmsg r' res w' s) = worker_of r s"
  by (cases "pc w'"; cases "appConn s"; cases res) (simp_all add: readmsg_def sys_simps)

lemma worker_of_dial:
  assumes "launch_inv s" and "worker_of r s = Some w"
  shows "worker_of r (dial r' res s) = Some w"
  using assms
  by (cases r; cases r'; cases res)
    (simp_all add: dial_def launch_inv_def startWorker_def sys_simps)

text \<open>
  A step takes a worker out of its drain loop in two ways only: its own loop test, when
  the index has reached the length of the buffer, and its own failed write.
\<close>

lemma leave_drain_loop:
  assumes "launch_inv s" and "drain_inv m r s"
    and "worker_of r s = Some w" and "draining (pc w)"
    and "worker_of r (step u m a s) = Some w'" and "\<not> draining (pc w')"
  shows "(a = Step r \<and> pc w = Check \<and> idx w = length (events s) \<and> pc w' = Drained) \<or>
         (a = Write r False \<and> pc w = Send \<and> pc w' = Terminated)"
proof -
  have live: "\<not> halted s"
    using assms(3-6) by (auto simp add: step_def)
  have bound: "idx w \<le> length (events s)"
    using assms(2,3,4) by (simp add: drain_inv_def drain_ok_def)
  show ?thesis
  proof (cases a)
    case Tick
    then show ?thesis using assms(3-6) live by (simp add: step_def sys_simps)
  next
    case ListenReturns
    then show ?thesis using assms(3-6) live by (simp add: step_def sys_simps)
  next
    case (Connect res)
    then show ?thesis using assms(3-6) live
      by (cases res) (simp_all add: step_def handleAppConnection_def sys_simps)
  next
    case (Ingress res)
    then show ?thesis using assms(3-6) live
      by (simp add: step_def ingress_def sys_simps split_beta split: if_splits)
  next
    case (DialProvider r' res)
    then show ?thesis using assms(3-6) live worker_of_dial [OF assms(1,3), of r' res]
      by (simp add: step_def)
  next
    case (Step r')
    show ?thesis
    proof (cases "r' = r")
      case False
      then show ?thesis using assms(3-6) live Step
        by (cases "worker_of r' s") (simp_all add: step_def worker_of_work_other)
    next
      case True
      then show ?thesis using assms(3-6) live Step bound
        by (cases "pc w")
          (auto simp add: step_def work_def sys_simps split_beta split: if_splits)
    qed
  next
    case (Write r' ok)
    show ?thesis
    proof (cases "r' = r")
      case False
      then show ?thesis using assms(3-6) live Write
        by (cases "worker_of r' s") (simp_all add: step_def worker_of_wrote_other)
    next
      case True
      then show ?thesis using assms(3-6) live Write
        by (cases "pc w"; cases ok) (auto simp add: step_def wrote_def sys_simps)
    qed
  next
    case (Read r' res)
    show ?thesis
    proof (cases "r' = r")
      case False
      then show ?thesis using assms(3-6) live Read
        by (cases "worker_of r' s") (simp_all add: step_def worker_of_readmsg_other)
    next
      case True
      then show ?thesis using assms(3-6) live Read
        by (cases "pc w") (auto simp add: step_def readmsg_def sys_simps)
    qed
  qed
qed

lemma drain_turn_run:
  assumes "\<not> halted s" and "worker_of r s = Some w" and "pc w = Check"
    and "idx w < length (events s)" and "0 < tokens (ratelimiter s)"
  shows "\<not> halted (run u m (drain_turn r) s) \<and>
         map_option pc (worker_of r (run u m (drain_turn r) s)) = Some Check \<and>
         map_option idx (worker_of r (run u m (drain_turn r) s)) = Some (idx w + 1) \<and>
         events (run u m (drain_turn r) s) = events s \<and>
         tokens (ratelimiter (run u m (drain_turn r) s)) = tokens (ratelimiter s) - 1"
  using assms
  by (simp add: drain_turn_def step_def work_def wrote_def Allow_def sys_simps)

lemma drain_turns_run:
  assumes "\<not> halted s" and "worker_of r s = Some w" and "pc w = Check"
    and "idx w + n \<le> length (events s)" and "int n \<le> tokens (ratelimiter s)"
  shows "\<not> halted (run u m (concat (replicate n (drain_turn r))) s) \<and>
         map_option pc (worker_of r (run u m (concat (replicate n (drain_turn r))) s)) =
           Some Check \<and>
         map_option idx (worker_of r (run u m (concat (replicate n (drain_turn r))) s)) =
           Some (idx w + n) \<and>
         events (run u m (concat (replicate n (drain_turn r))) s) = events s"
  using assms
proof (induction n arbitrary: s w)
  case 0
  then show ?case by simp
next
  case (Suc n)
  let ?s = "run u m (drain_turn r) s"
  have turn: "\<not> halted ?s \<and>
         map_option pc (worker_of r ?s) = Some Check \<and>
         map_option idx (worker_of r ?s) = Some (idx w + 1) \<and>
         events ?s = events s \<and>
         tokens (ratelimiter ?s) = tokens (ratelimiter s) - 1"
    using Suc.prems by (intro drain_turn_run) auto
  then obtain w' where w': "worker_of r ?s = Some w'" "pc w' = Check" "idx w' = idx w + 1"
    by auto
  have "\<not> halted (run u m (concat (replicate n (drain_turn r))) ?s) \<and>
         map_option pc (worker_of r (run u m (concat (replicate n (drain_turn r))) ?s)) =
           Some Check \<and>
         map_option idx (worker_of r (run u m (concat (replicate n (drain_turn r))) ?s)) =
           Some (idx w' + n) \<and>
         events (run u m (concat (replicate n (drain_turn r))) ?s) = events ?s"
    using Suc.prems turn w' by (intro Suc.IH) auto
  then show ?case using turn w' by (simp add: run_append)
qed

text \<open>
  With enough tokens and no write error, a worker at its loop test gets to the end of
  its drain loop, and has then sent the whole buffer, in order.
\<close>

lemma drain_to_end_run:
  assumes "exec u m as1 = Some s1" and "\<not> halted s1"
    and "worker_of r s1 = Some w" and "pc w = Check"
    and "int (length (events s1) - idx w) \<le> tokens (ratelimiter s1)"
  shows "map_option pc (worker_of r
            (run u m (drain_to_end r (length (events s1) - idx w)) s1)) = Some Drained \<and>
         drain_sends r (trace
            (run u m (drain_to_end r (length (events s1) - idx w) @ as2) s1)) =
           map (\<lambda>k. (k, m (events s1 ! k), True)) [0..<length (events s1)]"
proof -
  let ?n = "length (events s1) - idx w"
  let ?turns = "concat (replicate ?n (drain_turn r))"
  let ?s = "run u m ?turns s1"
  have bound: "idx w \<le> length (events s1)"
    using reach_drain_inv [OF assms(1), where r = r] assms(3,4)
    by (simp add: drain_inv_def drain_ok_def)
  then have "idx w + ?n \<le> length (events s1)" by simp
  then have turns: "\<not> halted ?s \<and>
         map_option pc (worker_of r ?s) = Some Check \<and>
         map_option idx (worker_of r ?s) = Some (idx w + ?n) \<and>
         events ?s = events s1"
    using assms(2-5) by (intro drain_turns_run) auto
  then obtain w' where w': "worker_of r ?s = Some w'" "pc w' = Check"
      "idx w' = length (events s1)"
    using bound by auto
  have e: "exec u m (as1 @ ?turns) = Some ?s"
    by (rule exec_append [OF assms(1)])
  have "\<not> idx w' < length (events ?s)" using w' turns by simp
  then have sent: "drain_sends r (trace (run u m (Step r # as2) ?s)) =
           map (\<lambda>k. (k, m (events ?s ! k), True)) [0..<length (events ?s)]"
    using drain_complete [OF e w'(1,2), of as2] by simp
  have "step u m (Step r) ?s = set_worker r (w'\<lparr>pc := Drained\<rparr>) ?s"
    using turns w' by (simp add: step_def work_def)
  then have "map_option pc (worker_of r (run u m [Step r] ?s)) = Some Drained"
    by (simp add: sys_simps)
  then show ?thesis using sent turns
    by (simp add: drain_to_end_def run_append)
qed

text \<open>
  C2: in every run of \<open>main\<close>, for each worker:
  \<^item> inside its drain loop it has written exactly the events below its index, each once,
    in index order and all without error;
  \<^item> once its loop test fails (the index has reached the length of the buffer), the
    writes of its drain loop are, for good, exactly the events that were in the buffer at
    that test, each once and in arrival order, and they are the first frames on its
    provider connection;
  \<^item> the loop test goes on to the load exactly when the index is below the length of the
    buffer and leaves the loop otherwise, the load takes the event at the index and never
    fails, and a successful write sends the marshalled event at the index and moves to
    the next index;
  \<^item> a step takes the worker out of its drain loop in two ways only: its own loop test
    with the index at the length of the buffer, and its own failed write;
  \<^item> with a token for every event still to send and no write error, the worker's own
    steps take it to the end of the loop, and it has then sent the whole buffer in order,
    whatever happens afterwards.
\<close>

theorem C2_drain_in_arrival_order:
  assumes "exec u m as1 = Some s1" and "worker_of r s1 = Some w"
  shows "(draining (pc w) \<longrightarrow>
            drain_sends r (trace s1) = map (\<lambda>k. (k, m (events s1 ! k), True)) [0..<idx w] \<and>
            idx w \<le> length (events s1)) \<and>
         (pc w = Check \<and> \<not> idx w < length (events s1) \<longrightarrow>
            drain_sends r (trace (run u m (Step r # as2) s1)) =
              map (\<lambda>k. (k, m (events s1 ! k), True)) [0..<length (events s1)] \<and>
            take (length (events s1)) (wire r (trace (run u m (Step r # as2) s1))) =
              map m (events s1)) \<and>
         (\<not> halted s1 \<longrightarrow>
            (pc w = Check \<longrightarrow>
               step u m (Step r) s1 =
                 set_worker r
                   (w\<lparr>pc := (if idx w < length (events s1) then Load else Drained)\<rparr>) s1) \<and>
            (pc w = Load \<longrightarrow>
               step u m (Step r) s1 =
                 set_worker r (w\<lparr>cur_event := events s1 ! idx w, pc := Permit\<rparr>) s1) \<and>
            (pc w = Send \<longrightarrow>
               step u m (Write r True) s1 =
                 set_worker r (w\<lparr>pc := Check, idx := idx w + 1\<rparr>)
                   (emit (SendEvent r (idx w) (m (events s1 ! idx w)) True) s1))) \<and>
         (draining (pc w) \<and>
          map_option (\<lambda>w'. draining (pc w')) (worker_of r (step u m a s1)) = Some False \<longrightarrow>
            (a = Step r \<and> pc w = Check \<and> idx w = length (events s1) \<and>
             map_option pc (worker_of r (step u m a s1)) = Some Drained) \<or>
            (a = Write r False \<and> pc w = Send \<and>
             map_option pc (worker_of r (step u m a s1)) = Some Terminated)) \<and>
         (\<not> halted s1 \<and> pc w = Check \<and>
          int (length (events s1) - idx w) \<le> tokens (ratelimiter s1) \<longrightarrow>
            map_option pc (worker_of r
              (run u m (drain_to_end r (length (events s1) - idx w)) s1)) = Some Drained \<and>
            drain_sends r (trace
              (run u m (drain_to_end r (length (events s1) - idx w) @ as2) s1)) =
              map (\<lambda>k. (k, m (events s1 ! k), True)) [0..<length (events s1)])"
proof -
  have dinv: "drain_inv m r s1" by (rule reach_drain_inv [OF assms(1)])
  have linv: "launch_inv s1" by (rule reach_launch_inv [OF assms(1)])
  have inv: "drain_ok m (events s1) (drain_sends r (trace s1)) (wire r (trace s1)) w"
    using dinv assms(2) by (simp add: drain_inv_def)
  have a: "draining (pc w) \<longrightarrow>
            drain_sends r (trace s1) = map (\<lambda>k. (k, m (events s1 ! k), True)) [0..<idx w] \<and>
            idx w \<le> length (events s1)"
    using inv by (simp add: drain_ok_def)
  have b: "pc w = Check \<and> \<not> idx w < length (events s1) \<longrightarrow>
            drain_sends r (trace (run u m (Step r # as2) s1)) =
              map (\<lambda>k. (k, m (events s1 ! k), True)) [0..<length (events s1)] \<and>
            take (length (events s1)) (wire r (trace (run u m (Step r # as2) s1))) =
              map m (events s1)"
    using drain_complete [OF assms, of as2] by blast
  have c: "\<not> halted s1 \<longrightarrow>
            (pc w = Check \<longrightarrow>
               step u m (Step r) s1 =
                 set_worker r
                   (w\<lparr>pc := (if idx w < length (events s1) then Load else Drained)\<rparr>) s1) \<and>
            (pc w = Load \<longrightarrow>
               step u m (Step r) s1 =
                 set_worker r (w\<lparr>cur_event := events s1 ! idx w, pc := Permit\<rparr>) s1) \<and>
            (pc w = Send \<longrightarrow>
               step u m (Write r True) s1 =
                 set_worker r (w\<lparr>pc := Check, idx := idx w + 1\<rparr>)
                   (emit (SendEvent r (idx w) (m (events s1 ! idx w)) True) s1))"
  proof
    assume live: "\<not> halted s1"
    have "pc w = Load \<longrightarrow> idx w < length (events s1)"
      using inv by (auto simp add: drain_ok_def)
    moreover have "pc w = Send \<longrightarrow> cur_event w = events s1 ! idx w"
      using inv by (auto simp add: drain_ok_def)
    ultimately show "(pc w = Check \<longrightarrow>
               step u m (Step r) s1 =
                 set_worker r
                   (w\<lparr>pc := (if idx w < length (events s1) then Load else Drained)\<rparr>) s1) \<and>
            (pc w = Load \<longrightarrow>
               step u m (Step r) s1 =
                 set_worker r (w\<lparr>cur_event := events s1 ! idx w, pc := Permit\<rparr>) s1) \<and>
            (pc w = Send \<longrightarrow>
               step u m (Write r True) s1 =
                 set_worker r (w\<lparr>pc := Check, idx := idx w + 1\<rparr>)
                   (emit (SendEvent r (idx w) (m (events s1 ! idx w)) True) s1))"
      using drain_steps [OF live assms(2), of u m] by auto
  qed
  have d: "draining (pc w) \<and>
          map_option (\<lambda>w'. draining (pc w')) (worker_of r (step u m a s1)) = Some False \<longrightarrow>
            (a = Step r \<and> pc w = Check \<and> idx w = length (events s1) \<and>
             map_option pc (worker_of r (step u m a s1)) = Some Drained) \<or>
            (a = Write r False \<and> pc w = Send \<and>
             map_option pc (worker_of r (step u m a s1)) = Some Terminated)"
  proof
    assume h: "draining (pc w) \<and>
          map_option (\<lambda>w'. draining (pc w')) (worker_of r (step u m a s1)) = Some False"
    then obtain w' where w': "worker_of r (step u m a s1) = Some w'" "\<not> draining (pc w')"
      by auto
    show "(a = Step r \<and> pc w = Check \<and> idx w = length (events s1) \<and>
             map_option pc (worker_of r (step u m a s1)) = Some Drained) \<or>
            (a = Write r False \<and> pc w = Send \<and>
             map_option pc (worker_of r (step u m a s1)) = Some Terminated)"
      using leave_drain_loop [OF linv dinv assms(2) _ w'] h w'(1) by auto
  qed
  have e: "\<not> halted s1 \<and> pc w = Check \<and>
          int (length (events s1) - idx w) \<le> tokens (ratelimiter s1) \<longrightarrow>
            map_option pc (worker_of r
              (run u m (drain_to_end r (length (events s1) - idx w)) s1)) = Some Drained \<and>
            drain_sends r (trace
              (run u m (drain_to_end r (length (events s1) - idx w) @ as2) s1)) =
              map (\<lambda>k. (k, m (events s1 ! k), True)) [0..<length (events s1)]"
    using drain_to_end_run [OF assms(1) _ assms(2), of as2] by blast
  show ?thesis by (intro conjI a b c d e)
qed

theorem C2_drain_in_arrival_order_witness:
  "map_option
     (\<lambda>s. (drain_sends MainWorker (trace s), length (events s), wire MainWorker (trace s)))
     (exec sample_unmarshal sample_marshal
        ([Connect (Some 1), Ingress (Some ''{\"id\":\"1\",\"payload\":\"a\"}''),
          Ingress (Some ''not json''), Ingress (Some ''{\"id\":\"2\",\"payload\":\"b\"}''),
          DialProvider MainWorker (Some 2), Ingress (Some ''{\"id\":\"3\"}'')] @
         drain_to_end MainWorker 3 @
         [Ingress (Some ''{}''), Step MainWorker, Step MainWorker,
          Read MainWorker (Some ''raw''), Write MainWorker True])) =
   Some ([(0, ''{\"id\":\"1\",\"payload\":\"a\"}'', True),
          (1, ''{\"id\":\"2\",\"payload\":\"b\"}'', True),
          (2, ''{\"id\":\"3\",\"payload\":\"\"}'', True)],
         4,
         [''{\"id\":\"1\",\"payload\":\"a\"}'', ''{\"id\":\"2\",\"payload\":\"b\"}'',
          ''{\"id\":\"3\",\"payload\":\"\"}'', ''raw''])"
proof -
  let ?as1 = "[Connect (Some 1), Ingress (Some ''{\"id\":\"1\",\"payload\":\"a\"}''),
          Ingress (Some ''not json''), Ingress (Some ''{\"id\":\"2\",\"payload\":\"b\"}''),
          DialProvider MainWorker (Some 2), Ingress (Some ''{\"id\":\"3\"}'')]"
  let ?as2 = "[Ingress (Some ''{}''), Step MainWorker, Step MainWorker,
          Read MainWorker (Some ''raw''), Write MainWorker True]"
  obtain s1 where e1: "exec sample_unmarshal sample_marshal ?as1 = Some s1"
    using exec_total by blast
  have "map_option (\<lambda>s. (halted s, map_option pc (worker_of MainWorker s),
            map_option idx (worker_of MainWorker s), events s, tokens (ratelimiter s)))
          (exec sample_unmarshal sample_marshal ?as1) =
        Some (False, Some Check, Some 0,
              [\<lparr>ID = ''1'', Payload = ''a''\<rparr>, \<lparr>ID = ''2'', Payload = ''b''\<rparr>,
               \<lparr>ID = ''3'', Payload = []\<rparr>], 100)"
    by code_simp
  then obtain w where w: "worker_of MainWorker s1 = Some w" "pc w = Check" "idx w = 0"
    and live: "\<not> halted s1" and tok: "tokens (ratelimiter s1) = 100"
    and ev: "events s1 = [\<lparr>ID = ''1'', Payload = ''a''\<rparr>, \<lparr>ID = ''2'', Payload = ''b''\<rparr>,
               \<lparr>ID = ''3'', Payload = []\<rparr>]"
    using e1 by auto
  have n: "length (events s1) - idx w = 3" by (simp add: ev w(3))
  have prem: "\<not> halted s1 \<and> pc w = Check \<and>
      int (length (events s1) - idx w) \<le> tokens (ratelimiter s1)"
    using live w(2) by (simp add: n tok)
  have "drain_sends MainWorker (trace (run sample_unmarshal sample_marshal
            (drain_to_end MainWorker (length (events s1) - idx w) @ ?as2) s1)) =
        map (\<lambda>k. (k, sample_marshal (events s1 ! k), True)) [0..<length (events s1)]"
    using C2_drain_in_arrival_order [OF e1 w(1), of ?as2 Tick,
        THEN conjunct2, THEN conjunct2, THEN conjunct2, THEN conjunct2, THEN mp, OF prem]
    by (rule conjunct2)
  then have "drain_sends MainWorker (trace (run sample_unmarshal sample_marshal
            (drain_to_end MainWorker 3 @ ?as2) s1)) =
        [(0, ''{\"id\":\"1\",\"payload\":\"a\"}'', True),
         (1, ''{\"id\":\"2\",\"payload\":\"b\"}'', True),
         (2, ''{\"id\":\"3\",\"payload\":\"\"}'', True)]"
    unfolding n by (simp add: ev sample_marshal_def)
  moreover have "map_option (\<lambda>s. (length (events s), wire MainWorker (trace s)))
     (exec sample_unmarshal sample_marshal (?as1 @ drain_to_end MainWorker 3 @ ?as2)) =
    Some (4, [''{\"id\":\"1\",\"payload\":\"a\"}'', ''{\"id\":\"2\",\"payload\":\"b\"}'',
          ''{\"id\":\"3\",\"payload\":\"\"}'', ''raw''])"
    by code_simp
  ultimately show ?thesis
    using exec_append [OF e1, of "drain_to_end MainWorker 3 @ ?as2"] by simp
qed

subsection \<open>The failover signal\<close>

lemma none_before_snoc:
  "none_before P Q (xs @ [x]) = (none_before P Q xs \<and> ((\<exists>y\<in>set xs. Q y) \<or> Q x \<or> \<not> P x))"
  by (induction xs) auto

lemma signal_seen: "(filter is_signal tr \<noteq> []) = (\<exists>e\<in>set tr. is_signal e)"
  by (simp add: filter_empty_conv)

lemma signal_inv_step:
  assumes "launch_inv s" and "signal_inv s"
  shows "signal_inv (step u m a s)"
proof (rule step_cases [where Q = signal_inv], goal_cases)
  case 1
  then show ?case using assms(2) .
next
  case (7 r)
  then show ?case using assms
    by (cases r)
      (auto simp add: signal_inv_def sys_simps none_before_snoc backup_effect_def
        main_finished_def filter_empty_conv split: option.splits)
next
  case (8 c)
  then show ?case using assms
    by (auto simp add: signal_inv_def launch_inv_def startWorker_def sys_simps
        none_before_snoc backup_effect_def main_finished_def split: option.splits)
next
  case (9 c)
  then show ?case using assms
    by (auto simp add: signal_inv_def launch_inv_def startWorker_def sys_simps
        none_before_snoc backup_effect_def main_finished_def filter_empty_conv
        split: option.splits)
next
  case (15 r w)
  then show ?case using assms
    by (cases r)
      (auto simp add: signal_inv_def launch_inv_def sys_simps none_before_snoc
        backup_effect_def main_finished_def filter_empty_conv split: option.splits)
qed (use assms in \<open>auto simp add: signal_inv_def launch_inv_def sys_simps
      none_before_snoc backup_effect_def main_finished_def filter_empty_conv
      split: option.splits\<close>)

lemma boot_signal_inv: "boot = Some s \<Longrightarrow> signal_inv s"
  by (auto simp add: boot_state signal_inv_def worker_of_def)

lemma reach_signal_inv:
  assumes "exec u m as = Some s"
  shows "signal_inv s"
proof -
  obtain s0 where b: "boot = Some s0" and s: "s = run u m as s0"
    using exec_run [OF assms] by blast
  have "launch_inv (run u m as s0) \<and> signal_inv (run u m as s0)"
    by (rule run_invariant [where I = "\<lambda>s. launch_inv s \<and> signal_inv s"])
      (simp_all add: launch_inv_step signal_inv_step boot_launch_inv [OF b] boot_signal_inv [OF b])
  then show ?thesis by (simp add: s)
qed

text \<open>
  C4: in every run of \<open>main\<close> the failover signal is sent at most once; whoever sent
  it is the main worker, which was started with \<open>triggerBackup\<close>; it is not sent before
  the log line with which the main worker leaves its drain loop; and nothing happens on
  the backup side (neither the dial of the backup provider nor any read, write or
  limiter call of the backup worker) before it.
\<close>

theorem C4_failover_signal_once_and_first:
  assumes "exec u m as = Some s"
  shows "length (filter is_signal (trace s)) \<le> 1 \<and>
         (Signal r \<in> set (trace s) \<longrightarrow>
            r = MainWorker \<and>
            (case worker_of r s of None \<Rightarrow> False | Some w \<Rightarrow> triggerBackup w)) \<and>
         none_before is_signal main_finished (trace s) \<and>
         none_before backup_effect is_signal (trace s) \<and>
         (backupSetup s = Waiting \<longrightarrow> worker_of BackupWorker s = None)"
proof -
  have sig: "signal_inv s" by (rule reach_signal_inv [OF assms])
  have lau: "launch_inv s" by (rule reach_launch_inv [OF assms])
  have who: "Signal r \<in> set (trace s) \<longrightarrow>
            r = MainWorker \<and>
            (case worker_of r s of None \<Rightarrow> False | Some w \<Rightarrow> triggerBackup w)"
  proof
    assume fired: "Signal r \<in> set (trace s)"
    then have r: "r = MainWorker" using sig by (cases r) (simp_all add: signal_inv_def)
    have "filter is_signal (trace s) \<noteq> []"
      using fired by (auto simp add: filter_empty_conv intro!: bexI [where x = "Signal r"])
    then have "worker_of MainWorker s \<noteq> None"
      using sig by (auto simp add: signal_inv_def split: option.splits)
    then show "r = MainWorker \<and>
            (case worker_of r s of None \<Rightarrow> False | Some w \<Rightarrow> triggerBackup w)"
      using r lau by (auto simp add: launch_inv_def)
  qed
  have idle: "backupSetup s = Waiting \<longrightarrow> worker_of BackupWorker s = None"
    using lau by (simp add: launch_inv_def)
  show ?thesis using sig who idle by (simp add: signal_inv_def)
qed

theorem C4_failover_signal_once_and_first_witness:
  "map_option
     (\<lambda>s. (trace s, length (filter is_signal (trace s)),
           none_before is_signal main_finished (trace s),
           none_before backup_effect is_signal (trace s)))
     (exec sample_unmarshal sample_marshal
        [DialProvider BackupWorker (Some 7), Step BackupWorker,
         DialProvider MainWorker (Some 2), Step MainWorker, Step MainWorker, Step MainWorker,
         Step MainWorker, DialProvider BackupWorker (Some 3), Step BackupWorker]) =
   Some ([Dial MainWorker True, Finished MainWorker, Signal MainWorker,
          Dial BackupWorker True], 1, True, True)"
proof -
  let ?as = "[DialProvider BackupWorker (Some 7), Step BackupWorker,
         DialProvider MainWorker (Some 2), Step MainWorker, Step MainWorker, Step MainWorker,
         Step MainWorker, DialProvider BackupWorker (Some 3), Step BackupWorker]"
  obtain s where e: "exec sample_unmarshal sample_marshal ?as = Some s"
    using exec_total by blast
  have "map_option (\<lambda>s. trace s) (exec sample_unmarshal sample_marshal ?as) =
      Some [Dial MainWorker True, Finished MainWorker, Signal MainWorker,
            Dial BackupWorker True]"
    by code_simp
  then have tr: "trace s = [Dial MainWorker True, Finished MainWorker, Signal MainWorker,
            Dial BackupWorker True]"
    using e by simp
  have "none_before is_signal main_finished (trace s) \<and>
        none_before backup_effect is_signal (trace s)"
    using C4_failover_signal_once_and_first [OF e, of MainWorker] by simp
  moreover have "length (filter is_signal (trace s)) = 1" by (simp add: tr)
  ultimately show ?thesis using e tr by (simp add: main_finished_def backup_effect_def)
qed

text \<open>
  C1, as stated, fails: the backup worker is started at the top of the drain loop, and
  in this run the event at index 0 is drained by the main worker and then again by the
  backup worker, which writes it on the backup connection.
\<close>

theorem C1_backup_drains_again_counterexample:
  "map_option (\<lambda>s. map_option pc (worker_of BackupWorker s))
     (exec sample_unmarshal sample_marshal
        [Connect (Some 1), Ingress (Some ''{\"id\":\"1\",\"payload\":\"a\"}''),
         DialProvider MainWorker (Some 2), Step MainWorker, Step MainWorker, Step MainWorker,
         Write MainWorker True, Step MainWorker, Step MainWorker, Step MainWorker,
         DialProvider BackupWorker (Some 3)]) =
   Some (Some Check) \<and>
   map_option
     (\<lambda>s. (drained MainWorker (trace s), drained BackupWorker (trace s),
           wire BackupWorker (trace s)))
     (exec sample_unmarshal sample_marshal
        [Connect (Some 1), Ingress (Some ''{\"id\":\"1\",\"payload\":\"a\"}''),
         DialProvider MainWorker (Some 2), Step MainWorker, Step MainWorker, Step MainWorker,
         Write MainWorker True, Step MainWorker, Step MainWorker, Step MainWorker,
         DialProvider BackupWorker (Some 3), Step BackupWorker, Step BackupWorker,
         Step BackupWorker, Write BackupWorker True]) =
   Some ([0], [0], [''{\"id\":\"1\",\"payload\":\"a\"}''])"
  by code_simp

lemma dial_backup_starts_draining:
  "\<not> halted s \<Longrightarrow> backupSetup s = Dialing \<Longrightarrow>
     worker_of BackupWorker (step u m (DialProvider BackupWorker (Some c)) s) =
       Some \<lparr>ws = c, triggerBackup = False, pc = Check, idx = 0,
             cur_event = zero_Event, cur_msg = []\<rparr>"
  by (simp add: step_def dial_def startWorker_def sys_simps)

text \<open>
  C1, amended: the backup worker is started with \<open>triggerBackup = false\<close> and nothing
  happens on the backup side before the failover signal, but the worker starts at the top
  of the same drain loop as the main worker, at index 0, not in pass-through. In every
  run of \<open>main\<close> each worker sends from the indexes \<open>0, 1, 2, ...\<close> of the buffer in
  order, so no worker drains an event twice (and an event can be drained once by each of
  the two workers).
\<close>

theorem C1_each_worker_drains_once:
  assumes "exec u m as = Some s"
  shows "drained r (trace s) = [0..<length (drained r (trace s))] \<and>
         distinct (drained r (trace s)) \<and>
         none_before backup_effect is_signal (trace s) \<and>
         (case worker_of BackupWorker s of None \<Rightarrow> True | Some w \<Rightarrow> \<not> triggerBackup w) \<and>
         (\<not> halted s \<and> backupSetup s = Dialing \<longrightarrow>
            worker_of BackupWorker (step u m (DialProvider BackupWorker (Some c)) s) =
              Some \<lparr>ws = c, triggerBackup = False, pc = Check, idx = 0,
                    cur_event = zero_Event, cur_msg = []\<rparr>)"
proof -
  have ord: "drained r (trace s) = [0..<length (drained r (trace s))]"
    using reach_drain_inv [OF assms, where r = r] by (simp add: drain_inv_def)
  have "distinct [0..<length (drained r (trace s))]" by simp
  then have dis: "distinct (drained r (trace s))" using ord by simp
  have sig: "none_before backup_effect is_signal (trace s)"
    using reach_signal_inv [OF assms] by (simp add: signal_inv_def)
  have trg: "case worker_of BackupWorker s of None \<Rightarrow> True | Some w \<Rightarrow> \<not> triggerBackup w"
    using reach_launch_inv [OF assms] by (simp add: launch_inv_def)
  show ?thesis using ord dis sig trg dial_backup_starts_draining [of s u m c] by blast
qed

theorem C1_each_worker_drains_once_witness:
  "map_option
     (\<lambda>s. (drained MainWorker (trace s), drained BackupWorker (trace s),
           map_option triggerBackup (worker_of BackupWorker s)))
     (exec sample_unmarshal sample_marshal
        [Connect (Some 1), Ingress (Some ''{\"id\":\"1\",\"payload\":\"a\"}''),
         Ingress (Some ''{\"id\":\"2\",\"payload\":\"b\"}''),
         DialProvider MainWorker (Some 2), Step MainWorker, Step MainWorker, Step MainWorker,
         Write MainWorker True, Step MainWorker, Step MainWorker, Step MainWorker,
         Write MainWorker True, Step MainWorker, Step MainWorker, Step MainWorker,
         DialProvider BackupWorker (Some 3), Step BackupWorker, Step BackupWorker,
         Step BackupWorker, Write BackupWorker True]) =
   Some ([0, 1], [0], Some False)"
proof -
  let ?as = "[Connect (Some 1), Ingress (Some ''{\"id\":\"1\",\"payload\":\"a\"}''),
         Ingress (Some ''{\"id\":\"2\",\"payload\":\"b\"}''),
         DialProvider MainWorker (Some 2), Step MainWorker, Step MainWorker, Step MainWorker,
         Write MainWorker True, Step MainWorker, Step MainWorker, Step MainWorker,
         Write MainWorker True, Step MainWorker, Step MainWorker, Step MainWorker,
         DialProvider BackupWorker (Some 3), Step BackupWorker, Step BackupWorker,
         Step BackupWorker, Write BackupWorker True]"
  obtain s where e: "exec sample_unmarshal sample_marshal ?as = Some s"
    using exec_total by blast
  have "map_option (\<lambda>s. (length (drained MainWorker (trace s)),
            length (drained BackupWorker (trace s)),
            map_option triggerBackup (worker_of BackupWorker s)))
          (exec sample_unmarshal sample_marshal ?as) = Some (2, 1, Some False)"
    by code_simp
  then have len: "length (drained MainWorker (trace s)) = 2"
      "length (drained BackupWorker (trace s)) = 1"
      "map_option triggerBackup (worker_of BackupWorker s) = Some False"
    using e by simp_all
  have "drained MainWorker (trace s) = [0 ..< 2]"
    using C1_each_worker_drains_once [OF e, of MainWorker 0] len(1) by simp
  moreover have "drained BackupWorker (trace s) = [0 ..< 1]"
    using C1_each_worker_drains_once [OF e, of BackupWorker 0] len(2) by simp
  ultimately show ?thesis using e len(3) by (simp add: upt_rec)
qed

subsection \<open>Generic preservation along runs of \<open>main\<close>\<close>

lemma reach_invariant:
  assumes "exec u m as = Some s"
    and "\<And>s0. boot = Some s0 \<Longrightarrow> I s0"
    and "\<And>a s. launch_inv s \<Longrightarrow> I s \<Longrightarrow> I (step u m a s)"
  shows "I s"
proof -
  obtain s0 where b: "boot = Some s0" and s: "s = run u m as s0"
    using exec_run [OF assms(1)] by blast
  have "launch_inv (run u m as s0) \<and> I (run u m as s0)"
    by (rule run_invariant [where I = "\<lambda>s. launch_inv s \<and> I s"])
      (simp_all add: launch_inv_step assms(2,3) boot_launch_inv [OF b] b)
  then show ?thesis by (simp add: s)
qed

subsection \<open>Pass-through\<close>

lemma observed_snoc:
  "observed r (tr @ [e]) = observed r tr @ (case observed_of r e of None \<Rightarrow> [] | Some f \<Rightarrow> [f])"
  by (simp add: observed_def map_filter_snoc)

lemma forwarded_snoc:
  "forwarded r (tr @ [e]) = forwarded r tr @ (case forward_of r e of None \<Rightarrow> [] | Some f \<Rightarrow> [f])"
  by (simp add: forwarded_def map_filter_snoc)

lemma pass_inv_step:
  assumes "launch_inv s" and "pass_inv r s"
  shows "pass_inv r (step u m a s)"
  by (rule step_cases [where Q = "pass_inv r"])
    (use assms in \<open>auto simp add: pass_inv_def launch_inv_def startWorker_def sys_simps
        observed_snoc forwarded_snoc split: option.splits role.splits\<close>)

lemma boot_pass_inv: "boot = Some s \<Longrightarrow> pass_inv r s"
  by (auto simp add: boot_state pass_inv_def worker_of_def observed_def forwarded_def
      List.map_filter_simps split: role.splits)

lemma reach_pass_inv:
  assumes "exec u m as = Some s"
  shows "pass_inv r s"
  by (rule reach_invariant [OF assms, where I = "pass_inv r"])
    (simp_all add: boot_pass_inv pass_inv_step)

lemma pass_through_steps:
  assumes "\<not> halted s" and "worker_of r s = Some w"
  shows "pc w = PtRead \<and> appConn s \<noteq> None \<longrightarrow>
           step u m (Read r (Some f)) s =
             set_worker r (w\<lparr>pc := PtWrite, cur_msg := f\<rparr>) (emit (ReadMsg r (Some f)) s)"
    and "pc w = PtWrite \<longrightarrow>
           step u m (Write r ok) s =
             set_worker r (w\<lparr>pc := (if ok then PtRead else Terminated)\<rparr>)
               (emit (Forward r (cur_msg w) ok) s)"
    and "pc w = PtRead \<or> pc w = PtWrite \<longrightarrow> step u m (Step r) s = s"
  using assms by (auto simp add: step_def readmsg_def wrote_def work_def)

lemma pass_through_untouched:
  assumes "worker_of r s = Some w" and "pc w = PtRead \<or> pc w = PtWrite"
  shows "ratelimiter (step u m (Read r res) s) = ratelimiter s \<and>
         events (step u m (Read r res) s) = events s \<and>
         ratelimiter (step u m (Write r ok) s) = ratelimiter s \<and>
         events (step u m (Write r ok) s) = events s"
  using assms
  by (cases "halted s"; cases "appConn s"; cases res)
    (auto simp add: step_def readmsg_def wrote_def sys_simps)

text \<open>
  C5: in every run of \<open>main\<close>, the frames a worker has passed to \<open>WriteMessage\<close> in its
  final loop are the frames it has read from the app connection, the same bytes in the
  same order, except for the one frame it has just read and is about to write (nothing
  else is held back). A read of the final loop stores the frame in \<open>msg\<close>, the write
  that follows writes \<open>msg\<close> as it is, and no step of a worker in its final loop touches
  the limiter or the buffer.
\<close>

theorem C5_pass_through_verbatim:
  assumes "exec u m as = Some s" and "worker_of r s = Some w"
  shows "observed r (trace s) =
           forwarded r (trace s) @ (if pc w = PtWrite then [cur_msg w] else []) \<and>
         (\<not> halted s \<and> pc w = PtRead \<and> appConn s \<noteq> None \<longrightarrow>
            step u m (Read r (Some f)) s =
              set_worker r (w\<lparr>pc := PtWrite, cur_msg := f\<rparr>) (emit (ReadMsg r (Some f)) s)) \<and>
         (\<not> halted s \<and> pc w = PtWrite \<longrightarrow>
            step u m (Write r ok) s =
              set_worker r (w\<lparr>pc := (if ok then PtRead else Terminated)\<rparr>)
                (emit (Forward r (cur_msg w) ok) s)) \<and>
         (pc w = PtRead \<or> pc w = PtWrite \<longrightarrow>
            ratelimiter (step u m (Read r res) s) = ratelimiter s \<and>
            events (step u m (Read r res) s) = events s \<and>
            ratelimiter (step u m (Write r ok) s) = ratelimiter s \<and>
            events (step u m (Write r ok) s) = events s \<and>
            step u m (Step r) s = s)"
proof -
  have a: "observed r (trace s) =
           forwarded r (trace s) @ (if pc w = PtWrite then [cur_msg w] else [])"
    using reach_pass_inv [OF assms(1), of r] assms(2) by (simp add: pass_inv_def)
  have b: "\<not> halted s \<and> pc w = PtRead \<and> appConn s \<noteq> None \<longrightarrow>
            step u m (Read r (Some f)) s =
              set_worker r (w\<lparr>pc := PtWrite, cur_msg := f\<rparr>) (emit (ReadMsg r (Some f)) s)"
    using pass_through_steps(1) [OF _ assms(2)] by blast
  have c: "\<not> halted s \<and> pc w = PtWrite \<longrightarrow>
            step u m (Write r ok) s =
              set_worker r (w\<lparr>pc := (if ok then PtRead else Terminated)\<rparr>)
                (emit (Forward r (cur_msg w) ok) s)"
    using pass_through_steps(2) [OF _ assms(2)] by blast
  have d: "pc w = PtRead \<or> pc w = PtWrite \<longrightarrow>
            ratelimiter (step u m (Read r res) s) = ratelimiter s \<and>
            events (step u m (Read r res) s) = events s \<and>
            ratelimiter (step u m (Write r ok) s) = ratelimiter s \<and>
            events (step u m (Write r ok) s) = events s \<and>
            step u m (Step r) s = s"
  proof
    assume at: "pc w = PtRead \<or> pc w = PtWrite"
    have "step u m (Step r) s = s"
      using assms(2) at by (cases "halted s") (auto simp add: step_def work_def)
    then show "ratelimiter (step u m (Read r res) s) = ratelimiter s \<and>
            events (step u m (Read r res) s) = events s \<and>
            ratelimiter (step u m (Write r ok) s) = ratelimiter s \<and>
            events (step u m (Write r ok) s) = events s \<and>
            step u m (Step r) s = s"
      using pass_through_untouched [OF assms(2) at, of u m res ok] by simp
  qed
  show ?thesis by (intro conjI a b c d)
qed

theorem C5_pass_through_verbatim_witness:
  "map_option (\<lambda>s. (observed BackupWorker (trace s), forwarded BackupWorker (trace s),
                    wire BackupWorker (trace s)))
     (exec sample_unmarshal sample_marshal
        [Connect (Some 1), DialProvider MainWorker (Some 2), Step MainWorker, Step MainWorker,
         Step MainWorker, DialProvider BackupWorker (Some 3), Step BackupWorker,
         Step BackupWorker, Read BackupWorker (Some ''not json''), Write BackupWorker True,
         Read BackupWorker (Some ''{\"id\":\"3\"}''), Write BackupWorker True,
         Read BackupWorker (Some ''[1,''), Tick]) =
   Some ([''not json'', ''{\"id\":\"3\"}'', ''[1,''], [''not json'', ''{\"id\":\"3\"}''],
         [''not json'', ''{\"id\":\"3\"}''])"
proof -
  let ?as = "[Connect (Some 1), DialProvider MainWorker (Some 2), Step MainWorker, Step MainWorker,
         Step MainWorker, DialProvider BackupWorker (Some 3), Step BackupWorker,
         Step BackupWorker, Read BackupWorker (Some ''not json''), Write BackupWorker True,
         Read BackupWorker (Some ''{\"id\":\"3\"}''), Write BackupWorker True,
         Read BackupWorker (Some ''[1,''), Tick]"
  obtain s where e: "exec sample_unmarshal sample_marshal ?as = Some s"
    using exec_total by blast
  have "map_option (\<lambda>s. (map_option pc (worker_of BackupWorker s),
            map_option cur_msg (worker_of BackupWorker s),
            forwarded BackupWorker (trace s), wire BackupWorker (trace s)))
          (exec sample_unmarshal sample_marshal ?as) =
        Some (Some PtWrite, Some ''[1,'', [''not json'', ''{\"id\":\"3\"}''],
              [''not json'', ''{\"id\":\"3\"}''])"
    by code_simp
  then obtain w where w: "worker_of BackupWorker s = Some w" "pc w = PtWrite" "cur_msg w = ''[1,''"
    and fw: "forwarded BackupWorker (trace s) = [''not json'', ''{\"id\":\"3\"}'']"
    and wr: "wire BackupWorker (trace s) = [''not json'', ''{\"id\":\"3\"}'']"
    using e by auto
  have "observed BackupWorker (trace s) = [''not json'', ''{\"id\":\"3\"}'', ''[1,'']"
    using C5_pass_through_verbatim [OF e w(1), of "''x''" True None] w(2,3) fw by simp
  then show ?thesis using e fw wr by simp
qed

subsection \<open>Termination after a failed send\<close>

lemma effects_of_snoc:
  "effects_of r (tr @ [e]) = effects_of r tr @ (if role_of e = r then [e] else [])"
  by (simp add: effects_of_def)

lemma after_drain_snoc:
  "after_drain r (tr @ [e]) =
     after_drain r tr @ (if role_of e = r \<and> post_drain_effect e then [e] else [])"
  by (simp add: after_drain_def)

lemma after_drain_effects: "after_drain r tr = filter post_drain_effect (effects_of r tr)"
  by (induction tr) (auto simp add: after_drain_def effects_of_def)

lemma wire_effects: "wire r tr = wire r (effects_of r tr)"
proof (induction tr)
  case Nil
  then show ?case by (simp add: effects_of_def)
next
  case (Cons e tr)
  then show ?case
    by (cases e) (auto simp add: wire_def effects_of_def List.map_filter_simps)
qed

lemma fresh_inv_step:
  assumes "launch_inv s" and "fresh_inv r s"
  shows "fresh_inv r (step u m a s)"
  by (rule step_cases [where Q = "fresh_inv r"])
    (use assms in \<open>auto simp add: fresh_inv_def launch_inv_def startWorker_def sys_simps
        after_drain_snoc split: option.splits role.splits\<close>)

lemma boot_fresh_inv: "boot = Some s \<Longrightarrow> fresh_inv r s"
  by (auto simp add: boot_state fresh_inv_def worker_of_def after_drain_def split: role.splits)

lemma reach_fresh_inv:
  assumes "exec u m as = Some s"
  shows "fresh_inv r s"
  by (rule reach_invariant [OF assms, where I = "fresh_inv r"])
    (simp_all add: boot_fresh_inv fresh_inv_step)

lemma terminated_step:
  assumes "launch_inv s" and "worker_of r s = Some w" and "pc w = Terminated"
  shows "worker_of r (step u m a s) = Some w \<and>
         effects_of r (trace (step u m a s)) = effects_of r (trace s)"
  by (rule step_cases [where Q = "\<lambda>s'. worker_of r s' = Some w \<and>
          effects_of r (trace s') = effects_of r (trace s)"])
    (use assms in \<open>auto simp add: launch_inv_def startWorker_def sys_simps effects_of_snoc
        split: role.splits\<close>)

lemma terminated_run:
  assumes "launch_inv s" and "worker_of r s = Some w" and "pc w = Terminated"
  shows "worker_of r (run u m as s) = Some w \<and>
         effects_of r (trace (run u m as s)) = effects_of r (trace s)"
proof -
  let ?I = "\<lambda>s'. launch_inv s' \<and> worker_of r s' = Some w \<and>
                 effects_of r (trace s') = effects_of r (trace s)"
  have "?I (run u m as s)"
    by (rule run_invariant [where I = ?I])
      (use assms in \<open>auto simp add: launch_inv_step terminated_step\<close>)
  then show ?thesis by simp
qed

text \<open>
  C7: in every run of \<open>main\<close>, when the write of the drain loop of a worker fails, the
  worker is terminated at once and stays so whatever happens next: from then on it has
  no effect at all (no further send, no limiter call, no dial), so what is on its
  provider connection is what was there before the failed write, and it never logs the
  end of its drain loop, never sends the failover signal and never reads or forwards a
  frame in the final loop.
\<close>

theorem C7_write_error_terminates:
  assumes "exec u m as1 = Some s" and "\<not> halted s"
    and "worker_of r s = Some w" and "pc w = Send"
  shows "worker_of r (run u m (Write r False # as2) s) = Some (w\<lparr>pc := Terminated\<rparr>) \<and>
         effects_of r (trace (run u m (Write r False # as2) s)) =
           effects_of r (trace s) @ [SendEvent r (idx w) (m (cur_event w)) False] \<and>
         wire r (trace (run u m (Write r False # as2) s)) = wire r (trace s) \<and>
         after_drain r (trace (run u m (Write r False # as2) s)) = [] \<and>
         Signal r \<notin> set (trace (run u m (Write r False # as2) s))"
proof -
  let ?s' = "step u m (Write r False) s"
  let ?s2 = "run u m (Write r False # as2) s"
  have s': "?s' = set_worker r (w\<lparr>pc := Terminated\<rparr>)
                    (emit (SendEvent r (idx w) (m (cur_event w)) False) s)"
    using assms(2,3,4) by (simp add: step_def wrote_def)
  have l': "launch_inv ?s'"
    by (rule launch_inv_step [OF reach_launch_inv [OF assms(1)]])
  have w': "worker_of r ?s' = Some (w\<lparr>pc := Terminated\<rparr>)"
    by (simp add: s' sys_simps)
  have stay: "worker_of r ?s2 = Some (w\<lparr>pc := Terminated\<rparr>) \<and>
              effects_of r (trace ?s2) = effects_of r (trace ?s')"
    using terminated_run [OF l' w', of u m as2] by simp
  have eff: "effects_of r (trace ?s2) =
      effects_of r (trace s) @ [SendEvent r (idx w) (m (cur_event w)) False]"
    using stay by (simp add: s' sys_simps effects_of_snoc)
  have "after_drain r (trace s) = []"
    using reach_fresh_inv [OF assms(1), of r] assms(3,4) by (simp add: fresh_inv_def)
  then have none: "after_drain r (trace ?s2) = []"
    using eff by (simp add: after_drain_effects)
  have quiet: "wire r (trace ?s2) = wire r (trace s)"
    using eff wire_effects [of r "trace ?s2"] wire_effects [of r "trace s"]
    by (simp add: wire_snoc)
  have "Signal r \<notin> set (after_drain r (trace ?s2)) \<longrightarrow> Signal r \<notin> set (trace ?s2)"
    by (simp add: after_drain_def)
  then have silent: "Signal r \<notin> set (trace ?s2)" using none by simp
  show ?thesis using stay eff quiet none silent by simp
qed

theorem C7_write_error_terminates_witness:
  "map_option (\<lambda>s. (map_option pc (worker_of MainWorker s), trace s, backupSetup s))
     (exec sample_unmarshal sample_marshal
        ([Connect (Some 1), Ingress (Some ''{\"id\":\"1\",\"payload\":\"a\"}''),
          Ingress (Some ''{\"id\":\"2\",\"payload\":\"b\"}''),
          DialProvider MainWorker (Some 2), Step MainWorker, Step MainWorker, Step MainWorker] @
         Write MainWorker False #
         [Step MainWorker, Write MainWorker True, Read MainWorker (Some ''x''), Tick,
          Step MainWorker, DialProvider BackupWorker (Some 3)])) =
   Some (Some Terminated,
         [Dial MainWorker True, AllowCall MainWorker True,
          SendEvent MainWorker 0 ''{\"id\":\"1\",\"payload\":\"a\"}'' False],
         Waiting)"
proof -
  let ?as1 = "[Connect (Some 1), Ingress (Some ''{\"id\":\"1\",\"payload\":\"a\"}''),
          Ingress (Some ''{\"id\":\"2\",\"payload\":\"b\"}''),
          DialProvider MainWorker (Some 2), Step MainWorker, Step MainWorker, Step MainWorker]"
  let ?as2 = "[Step MainWorker, Write MainWorker True, Read MainWorker (Some ''x''), Tick,
          Step MainWorker, DialProvider BackupWorker (Some 3)]"
  obtain s where e: "exec sample_unmarshal sample_marshal ?as1 = Some s"
    using exec_total by blast
  have "map_option (\<lambda>s. (halted s, map_option pc (worker_of MainWorker s)))
          (exec sample_unmarshal sample_marshal ?as1) = Some (False, Some Send)"
    by code_simp
  then obtain w where w: "\<not> halted s" "worker_of MainWorker s = Some w" "pc w = Send"
    using e by auto
  have "map_option pc (worker_of MainWorker
          (run sample_unmarshal sample_marshal (Write MainWorker False # ?as2) s)) =
        Some Terminated"
    using C7_write_error_terminates [OF e w, of ?as2] by simp
  moreover have "map_option (\<lambda>s. (trace s, backupSetup s))
          (exec sample_unmarshal sample_marshal (?as1 @ Write MainWorker False # ?as2)) =
        Some ([Dial MainWorker True, AllowCall MainWorker True,
          SendEvent MainWorker 0 ''{\"id\":\"1\",\"payload\":\"a\"}'' False], Waiting)"
    by code_simp
  ultimately show ?thesis
    using exec_append [OF e, of "Write MainWorker False # ?as2"] by simp
qed

subsection \<open>Permits\<close>

lemma gated_snoc: "gated (tr @ [e]) = gate_step (gated tr) e"
  by (simp add: gated_def)

lemma permits_snoc:
  "permits r (tr @ [e]) = permits r tr + (if e = AllowCall r True then 1 else 0)"
  by (simp add: permits_def)

lemmas gate_simps = gate_inv_def sys_simps effects_of_snoc gated_snoc permits_snoc
  drain_sends_snoc

lemma gate_inv_other:
  assumes "gate_inv r s" and "r' \<noteq> r" and "role_of e = r'"
  shows "gate_inv r (set_worker r' w (emit e s))"
proof -
  have "send_of r e = None" using assms(2,3) by (cases e) auto
  moreover have "e \<noteq> AllowCall r True" using assms(2,3) by auto
  ultimately show ?thesis using assms by (simp add: gate_simps cong: option.case_cong)
qed

lemma gate_inv_step:
  assumes "launch_inv s" and "gate_inv r s"
  shows "gate_inv r (step u m a s)"
proof (rule step_cases [where Q = "gate_inv r"], goal_cases)
  case 1
  then show ?case using assms(2) .
next
  case 2
  then show ?case using assms(2) by (simp add: gate_simps cong: option.case_cong)
next
  case 3
  then show ?case using assms(2) by (simp add: gate_simps cong: option.case_cong)
next
  case (4 c)
  then show ?case using assms(2) by (simp add: gate_simps cong: option.case_cong)
next
  case 5
  then show ?case using assms(2) by (simp add: gate_simps cong: option.case_cong)
next
  case (6 f e)
  then show ?case using assms(2) by (simp add: gate_simps cong: option.case_cong)
next
  case (7 r')
  then show ?case using assms
    by (cases r; cases r')
      (auto simp add: gate_simps launch_inv_def split: option.splits)
next
  case (8 c)
  then show ?case using assms
    by (cases r) (auto simp add: gate_simps launch_inv_def startWorker_def)
next
  case (9 c)
  then show ?case using assms
    by (cases r) (auto simp add: gate_simps launch_inv_def startWorker_def)
next
  case (10 r' w)
  then show ?case using assms(2)
    by (cases "r' = r") (auto simp add: gate_simps split: option.splits)
next
  case (11 r' w)
  then show ?case using assms(2)
    by (cases "r' = r") (auto simp add: gate_simps split: option.splits)
next
  case (12 r' w g rl')
  then show ?case using assms(2)
    by (cases "r' = r") (auto simp add: gate_simps gate_inv_other split: option.splits)
next
  case (13 r' w)
  then show ?case using assms(2)
    by (cases "r' = r") (auto simp add: gate_simps gate_inv_other split: option.splits)
next
  case (14 r' w)
  then show ?case using assms(2)
    by (cases "r' = r") (auto simp add: gate_simps gate_inv_other split: option.splits)
next
  case (15 r' w)
  then show ?case using assms(2)
    by (cases "r' = r") (auto simp add: gate_simps split: option.splits)
next
  case (16 r' w)
  then show ?case using assms(2)
    by (cases "r' = r") (auto simp add: gate_simps gate_inv_other split: option.splits)
next
  case (17 r' w)
  then show ?case using assms(2)
    by (cases "r' = r") (auto simp add: gate_simps gate_inv_other split: option.splits)
next
  case (18 r' w ok)
  then show ?case using assms(2)
    by (cases "r' = r") (auto simp add: gate_simps gate_inv_other split: option.splits)
next
  case (19 r' w c)
  then show ?case using assms(2)
    by (cases "r' = r") (auto simp add: gate_simps gate_inv_other split: option.splits)
next
  case (20 r' w c f)
  then show ?case using assms(2)
    by (cases "r' = r") (auto simp add: gate_simps gate_inv_other split: option.splits)
qed

lemma boot_gate_inv: "boot = Some s \<Longrightarrow> gate_inv r s"
  by (auto simp add: boot_state gate_inv_def worker_of_def effects_of_def gated_def
      permits_def drain_sends_def List.map_filter_simps split: role.splits)

lemma reach_gate_inv:
  assumes "exec u m as = Some s"
  shows "gate_inv r s"
  by (rule reach_invariant [OF assms, where I = "gate_inv r"])
    (simp_all add: boot_gate_inv gate_inv_step)

text \<open>
  C8: in every run of \<open>main\<close>, what a worker does follows the protocol \<open>gated\<close>: it
  writes an event of the buffer only with a permit that the limiter granted it just
  before, one permit for each write; after a denial it sleeps one minute, and after the
  sleep it calls the limiter again. So the writes of its drain loop are never more than
  the permits it obtained. At the test of the limiter the worker goes on to the write
  exactly when \<open>Allow\<close> grants, and to the sleep otherwise.
\<close>

theorem C8_send_needs_permit:
  assumes "exec u m as = Some s"
  shows "gated (effects_of r (trace s)) \<noteq> None \<and>
         length (drain_sends r (trace s)) \<le> permits r (trace s) \<and>
         (case worker_of r s of
            None \<Rightarrow> True
          | Some w \<Rightarrow>
              (pc w = Send \<longrightarrow> Suc (length (drain_sends r (trace s))) = permits r (trace s)) \<and>
              (\<not> halted s \<and> pc w = Permit \<longrightarrow>
                 step u m (Step r) s =
                   set_worker r (w\<lparr>pc := (if fst (Allow (ratelimiter s)) then Send else Sleep)\<rparr>)
                     (emit (AllowCall r (fst (Allow (ratelimiter s))))
                        (s\<lparr>ratelimiter := snd (Allow (ratelimiter s))\<rparr>))) \<and>
              (\<not> halted s \<and> pc w = Sleep \<longrightarrow>
                 step u m (Step r) s =
                   set_worker r (w\<lparr>pc := Permit\<rparr>) (emit (SleepFor r 60000000000) s)))"
proof (cases "worker_of r s")
  case None
  then show ?thesis
    using reach_gate_inv [OF assms, of r] by (simp add: gate_inv_def)
next
  case (Some w)
  have inv: "(case gated (effects_of r (trace s)) of None \<Rightarrow> False | Some g \<Rightarrow> gate_at (pc w) g) \<and>
      permits r (trace s) = length (drain_sends r (trace s)) + holds_permit (pc w)"
    using reach_gate_inv [OF assms, of r] Some by (simp add: gate_inv_def)
  then have a: "gated (effects_of r (trace s)) \<noteq> None" by (auto split: option.splits)
  have b: "length (drain_sends r (trace s)) \<le> permits r (trace s)" using inv by simp
  have c: "pc w = Send \<longrightarrow> Suc (length (drain_sends r (trace s))) = permits r (trace s)"
    using inv by auto
  have d: "\<not> halted s \<and> pc w = Permit \<longrightarrow>
                 step u m (Step r) s =
                   set_worker r (w\<lparr>pc := (if fst (Allow (ratelimiter s)) then Send else Sleep)\<rparr>)
                     (emit (AllowCall r (fst (Allow (ratelimiter s))))
                        (s\<lparr>ratelimiter := snd (Allow (ratelimiter s))\<rparr>))"
    using Some by (auto simp add: step_def work_def split_beta)
  have e: "\<not> halted s \<and> pc w = Sleep \<longrightarrow>
                 step u m (Step r) s =
                   set_worker r (w\<lparr>pc := Permit\<rparr>) (emit (SleepFor r 60000000000) s)"
    using Some by (auto simp add: step_def work_def Minute_def)
  show ?thesis using a b c d e Some by simp
qed

theorem C8_send_needs_permit_witness:
  "map_option (\<lambda>s. map_option pc (worker_of MainWorker s))
     (exec sample_unmarshal sample_marshal
        ([Connect (Some 1), Ingress (Some ''{\"id\":\"1\",\"payload\":\"a\"}''),
          DialProvider MainWorker (Some 2), Step MainWorker, Step MainWorker] @
         [Step MainWorker])) = Some (Some Send) \<and>
   map_option
     (\<lambda>s. (effects_of MainWorker (trace s), gated (effects_of MainWorker (trace s)),
           length (drain_sends MainWorker (trace s)), permits MainWorker (trace s)))
     (exec sample_unmarshal sample_marshal
        [Connect (Some 1), Ingress (Some ''{\"id\":\"1\",\"payload\":\"a\"}''),
         DialProvider MainWorker (Some 2), Step MainWorker, Step MainWorker,
         Step MainWorker, Write MainWorker True]) =
   Some ([Dial MainWorker True, AllowCall MainWorker True,
          SendEvent MainWorker 0 ''{\"id\":\"1\",\"payload\":\"a\"}'' True],
         Some Idle, 1, 1) \<and>
   gated [AllowCall MainWorker False, SleepFor MainWorker 60000000000,
          AllowCall MainWorker True, SendEvent MainWorker 0 ''x'' True] = Some Idle \<and>
   gated [AllowCall MainWorker False, SendEvent MainWorker 0 ''x'' True] = None \<and>
   gated [AllowCall MainWorker False, AllowCall MainWorker True] = None \<and>
   gated [SendEvent MainWorker 0 ''x'' True] = None"
proof -
  let ?as1 = "[Connect (Some 1), Ingress (Some ''{\"id\":\"1\",\"payload\":\"a\"}''),
          DialProvider MainWorker (Some 2), Step MainWorker, Step MainWorker]"
  let ?as = "[Connect (Some 1), Ingress (Some ''{\"id\":\"1\",\"payload\":\"a\"}''),
         DialProvider MainWorker (Some 2), Step MainWorker, Step MainWorker,
         Step MainWorker, Write MainWorker True]"
  obtain s1 where e1: "exec sample_unmarshal sample_marshal ?as1 = Some s1"
    using exec_total by blast
  have "map_option (\<lambda>s. (halted s, map_option pc (worker_of MainWorker s),
            tokens (ratelimiter s)))
          (exec sample_unmarshal sample_marshal ?as1) = Some (False, Some Permit, 100)"
    by code_simp
  then obtain w where w: "\<not> halted s1" "worker_of MainWorker s1 = Some w" "pc w = Permit"
    and tok: "tokens (ratelimiter s1) = 100"
    using e1 by auto
  have "step sample_unmarshal sample_marshal (Step MainWorker) s1 =
          set_worker MainWorker (w\<lparr>pc := Send\<rparr>)
            (emit (AllowCall MainWorker True)
               (s1\<lparr>ratelimiter := snd (Allow (ratelimiter s1))\<rparr>))"
    using C8_send_needs_permit [OF e1, of MainWorker] w tok by (simp add: Allow_def)
  then have a: "map_option (\<lambda>s. map_option pc (worker_of MainWorker s))
     (exec sample_unmarshal sample_marshal (?as1 @ [Step MainWorker])) = Some (Some Send)"
    using exec_append [OF e1, of "[Step MainWorker]"] by (simp add: sys_simps)
  obtain s where e: "exec sample_unmarshal sample_marshal ?as = Some s"
    using exec_total by blast
  have run: "map_option
     (\<lambda>s. (effects_of MainWorker (trace s), length (drain_sends MainWorker (trace s)),
           permits MainWorker (trace s)))
     (exec sample_unmarshal sample_marshal ?as) =
   Some ([Dial MainWorker True, AllowCall MainWorker True,
          SendEvent MainWorker 0 ''{\"id\":\"1\",\"payload\":\"a\"}'' True], 1, 1)"
    by code_simp
  then have eff: "effects_of MainWorker (trace s) =
         [Dial MainWorker True, AllowCall MainWorker True,
          SendEvent MainWorker 0 ''{\"id\":\"1\",\"payload\":\"a\"}'' True]"
    using e by simp
  have "gated (effects_of MainWorker (trace s)) \<noteq> None"
    using C8_send_needs_permit [OF e, of MainWorker] by simp
  then have b: "gated (effects_of MainWorker (trace s)) = Some Idle"
    by (simp add: eff gated_def)
  have c: "gated [AllowCall MainWorker False, SleepFor MainWorker 60000000000,
          AllowCall MainWorker True, SendEvent MainWorker 0 ''x'' True] = Some Idle \<and>
   gated [AllowCall MainWorker False, SendEvent MainWorker 0 ''x'' True] = None \<and>
   gated [AllowCall MainWorker False, AllowCall MainWorker True] = None \<and>
   gated [SendEvent MainWorker 0 ''x'' True] = None"
    by (simp add: gated_def Minute_def)
  show ?thesis using a b c run e by simp
qed

end
